theory Spec2Isabelle
  imports Main "HOL-Library.Word" "HOL-Library.Sublist"
begin

unbundle bit_operations_syntax

section \<open>JavaScript strings\<close>

text \<open>
  A JavaScript string is a sequence of UTF-16 code units. String literals of the source
  are ASCII and are written through \<open>lit\<close>.
\<close>

type_synonym jsstring = "16 word list"

definition lit :: "string \<Rightarrow> jsstring" where
  "lit s = map of_char s"

definition semicolon :: "16 word" where "semicolon = 0x3B"
definition colon :: "16 word" where "colon = 0x3A"
definition brace_open :: "16 word" where "brace_open = 0x7B"
definition brace_close :: "16 word" where "brace_close = 0x7D"
definition dollar :: "16 word" where "dollar = 0x24"
definition ampersand :: "16 word" where "ampersand = 0x26"
definition backtick :: "16 word" where "backtick = 0x60"
definition apostrophe :: "16 word" where "apostrophe = 0x27"

text \<open>
  The characters removed by \<open>String.prototype.trim\<close>: ECMAScript WhiteSpace
  (TAB, VT, FF, SP, NBSP, ZWNBSP and the Unicode space separators) and LineTerminator
  (LF, CR, LS, PS).
\<close>

definition is_whitespace :: "16 word \<Rightarrow> bool" where
  "is_whitespace c \<longleftrightarrow>
     c = 0x09 \<or> c = 0x0A \<or> c = 0x0B \<or> c = 0x0C \<or> c = 0x0D \<or> c = 0x20 \<or>
     c = 0xA0 \<or> c = 0x1680 \<or> (0x2000 \<le> c \<and> c \<le> 0x200A) \<or>
     c = 0x2028 \<or> c = 0x2029 \<or> c = 0x202F \<or> c = 0x205F \<or> c = 0x3000 \<or>
     c = 0xFEFF"

text \<open>\<open>function trim(text) { return text.trim() }\<close>\<close>

definition trim :: "jsstring \<Rightarrow> jsstring" where
  "trim text = rev (dropWhile is_whitespace (rev (dropWhile is_whitespace text)))"

text \<open>
  Index of the first element satisfying a test, \<open>-1\<close> when there is none: the result
  convention of \<open>search\<close> and \<open>indexOf\<close>.
\<close>

fun index_where :: "('a \<Rightarrow> bool) \<Rightarrow> 'a list \<Rightarrow> int" where
  "index_where P [] = -1"
| "index_where P (x # xs) =
     (if P x then 0
      else (let i = index_where P xs in if i < 0 then -1 else i + 1))"

text \<open>\<open>text.search(/[;{]/)\<close>\<close>

definition search :: "jsstring \<Rightarrow> int" where
  "search text = index_where (\<lambda>c. c = semicolon \<or> c = brace_open) text"

text \<open>\<open>text.indexOf('}')\<close> with a one-character argument.\<close>

definition indexOf :: "jsstring \<Rightarrow> 16 word \<Rightarrow> int" where
  "indexOf text c = index_where (\<lambda>x. x = c) text"

text \<open>\<open>text[i]\<close>: \<open>None\<close> stands for \<open>undefined\<close>.\<close>

definition char_at :: "jsstring \<Rightarrow> int \<Rightarrow> 16 word option" where
  "char_at text i = (if 0 \<le> i \<and> i < int (length text) then Some (text ! nat i) else None)"

text \<open>
  \<open>text.slice(start, end)\<close>: a negative index counts from the end, both indices are
  clamped to the string, and an empty range gives the empty string.
\<close>

definition slice_str :: "jsstring \<Rightarrow> int \<Rightarrow> int \<Rightarrow> jsstring" where
  "slice_str text start fin =
     (let len = int (length text);
          lo = (if start < 0 then max (len + start) 0 else min start len);
          hi = (if fin < 0 then max (len + fin) 0 else min fin len)
      in take (nat (hi - lo)) (drop (nat lo) text))"

text \<open>\<open>text.slice(start)\<close>\<close>

definition slice_from :: "jsstring \<Rightarrow> int \<Rightarrow> jsstring" where
  "slice_from text start = slice_str text start (int (length text))"

text \<open>\<open>text.split(c)\<close> with a one-character separator: never the empty array.\<close>

fun split_str :: "16 word \<Rightarrow> jsstring \<Rightarrow> jsstring list" where
  "split_str c [] = [[]]"
| "split_str c (x # xs) =
     (if x = c then [] # split_str c xs
      else (case split_str c xs of
              [] \<Rightarrow> [[x]]
            | p # ps \<Rightarrow> (x # p) # ps))"

text \<open>\<open>array.join(sep)\<close> on an array of strings.\<close>

fun join :: "jsstring \<Rightarrow> jsstring list \<Rightarrow> jsstring" where
  "join sep [] = []"
| "join sep [x] = x"
| "join sep (x # y # ys) = x @ sep @ join sep (y # ys)"

text \<open>\<open>text.startsWith(p)\<close>\<close>

definition startsWith :: "jsstring \<Rightarrow> jsstring \<Rightarrow> bool" where
  "startsWith text p = (take (length p) text = p)"

text \<open>
  \<open>[...data]\<close>: the string iterator yields one string per code point, so a high
  surrogate followed by a low surrogate is one element of two code units.
\<close>

definition is_high_surrogate :: "16 word \<Rightarrow> bool" where
  "is_high_surrogate c \<longleftrightarrow> 0xD800 \<le> c \<and> c \<le> 0xDBFF"

definition is_low_surrogate :: "16 word \<Rightarrow> bool" where
  "is_low_surrogate c \<longleftrightarrow> 0xDC00 \<le> c \<and> c \<le> 0xDFFF"

fun spread :: "jsstring \<Rightarrow> jsstring list" where
  "spread [] = []"
| "spread [c] = [[c]]"
| "spread (c # d # cs) =
     (if is_high_surrogate c \<and> is_low_surrogate d then [c, d] # spread cs
      else [c] # spread (d # cs))"

text \<open>
  \<open>text.replace(pattern, replacement)\<close> with a string pattern: only the first
  occurrence is replaced, and the replacement is a template in which \<open>$$\<close>, \<open>$&\<close>,
  \<open>$`\<close> and \<open>$'\<close> are expanded (there are no capture groups, so every other
  \<open>$\<close> is literal).
\<close>

fun find_first :: "jsstring \<Rightarrow> jsstring \<Rightarrow> nat option" where
  "find_first pat [] = (if pat = [] then Some 0 else None)"
| "find_first pat (x # xs) =
     (if prefix pat (x # xs) then Some 0 else map_option Suc (find_first pat xs))"

fun getSubstitution :: "jsstring \<Rightarrow> jsstring \<Rightarrow> jsstring \<Rightarrow> jsstring \<Rightarrow> jsstring" where
  "getSubstitution matched pre post [] = []"
| "getSubstitution matched pre post [c] = [c]"
| "getSubstitution matched pre post (c # d # cs) =
     (if c = dollar \<and> d = dollar then dollar # getSubstitution matched pre post cs
      else if c = dollar \<and> d = ampersand then matched @ getSubstitution matched pre post cs
      else if c = dollar \<and> d = backtick then pre @ getSubstitution matched pre post cs
      else if c = dollar \<and> d = apostrophe then post @ getSubstitution matched pre post cs
      else c # getSubstitution matched pre post (d # cs))"

definition replace :: "jsstring \<Rightarrow> jsstring \<Rightarrow> jsstring \<Rightarrow> jsstring" where
  "replace text pat replacement =
     (case find_first pat text of
        None \<Rightarrow> text
      | Some p \<Rightarrow>
          (let pre = take p text; post = drop (p + length pat) text
           in pre @ getSubstitution pat pre post replacement @ post))"

section \<open>Types and shared state\<close>

text \<open>
  \<open>ParsedCSS = Array<[string, string | Array<[string, string]>]>\<close>. At run time a
  declaration tuple is whatever \<open>split(':')\<close> returned, an array of one or more strings:
  \<open>Simple k vs\<close> is the array \<open>[k, ...vs]\<close>. \<open>Nested r ps\<close> is \<open>[r, ps]\<close>.
\<close>

datatype node = Simple jsstring "jsstring list" | Nested jsstring "node list"

record rule =
  ruleBody :: jsstring
  selector :: jsstring

record compiledCSS =
  classes :: "jsstring list"
  customProperties :: "node list"
  rules :: "rule list"

text \<open>
  \<open>Map<string, Set<string>>\<close>: both iterate in insertion order, so the map is an
  association list with distinct keys and a set is a list without duplicates.
\<close>

type_synonym stylesheet = "(jsstring \<times> jsstring list) list"

definition placeholder :: jsstring where
  "placeholder = lit ''ZTc5OGY2MDUtMTFkNy00ODJmLWI4NmMtZjExYzA5MzdiZjc5''"

text \<open>What the code writes to the console.\<close>

datatype message =
    AssertionFailed jsstring
  | Warning jsstring jsstring

text \<open>
  Exceptions. \<open>parse\<close> recurses once per declaration and rule without a bound of its own;
  the engine bounds the call stack and throws a \<open>RangeError\<close> when it is exhausted.
\<close>

datatype error = StackExhausted | Unreachable

section \<open>Hasher\<close>

definition symbols :: jsstring where
  "symbols = lit ''01234567890abcdefghijklmnopqrstuvwxyzABCDEFGHIJKLMNOPQRSTUVWXYZ-''"

definition alphabet :: "jsstring list" where
  "alphabet = spread symbols"

definition masks :: "32 word list" where
  "masks = [0x3F, 0xFC0, 0x3F000, 0xFC0000, 0x3F000000]"

text \<open>
  \<open>hash * 311 + char.charCodeAt(0) >>> 0\<close>: the sum is exact in a double (below
  \<open>2^41\<close>) and \<open>>>> 0\<close> reduces it modulo \<open>2^32\<close>. \<open>charCodeAt(0)\<close> is the first
  code unit of the element; on an empty string it is \<open>NaN\<close>, and \<open>NaN >>> 0\<close> is 0.
\<close>

definition hash_step :: "32 word \<Rightarrow> jsstring \<Rightarrow> 32 word" where
  "hash_step h ch = (case ch of [] \<Rightarrow> 0 | c # _ \<Rightarrow> h * 311 + ucast c)"

definition hashInt :: "jsstring \<Rightarrow> 32 word" where
  "hashInt data = foldl hash_step 313 (spread data)"

text \<open>
  \<open>alphabet[(hashInt & mask) >>> index * 6]\<close>, joined with the empty string; an index
  outside the array would give \<open>undefined\<close>, which \<open>join\<close> renders as the empty string.
\<close>

definition alphabet_at :: "nat \<Rightarrow> jsstring" where
  "alphabet_at i = (if i < length alphabet then alphabet ! i else [])"

definition hash :: "jsstring \<Rightarrow> jsstring" where
  "hash data =
     join [] (map (\<lambda>(mask, index). alphabet_at (unat (drop_bit (index * 6) (hashInt data AND mask))))
                  (zip masks [0..<length masks]))"

section \<open>Parser\<close>

text \<open>
  \<open>text.split(':').map(trim) as [string, string]\<close>: the cast does not change the
  array. \<open>split\<close> never returns the empty array, so the first equation is not reached.
\<close>

fun tuple_of :: "jsstring list \<Rightarrow> node" where
  "tuple_of [] = Simple [] []"
| "tuple_of (k # vs) = Simple k vs"

fun tuple_length :: "node \<Rightarrow> nat" where
  "tuple_length (Simple k vs) = Suc (length vs)"
| "tuple_length (Nested r ps) = 2"

text \<open>\<open>console.assert(condition, message, data)\<close> logs when the condition is false and returns.\<close>

definition console_assert :: "bool \<Rightarrow> jsstring \<Rightarrow> message list \<Rightarrow> message list" where
  "console_assert condition data console =
     (if condition then console else console @ [AssertionFailed data])"

text \<open>
  \<open>parse(text, result = [])\<close>. The first argument is the number of stack frames left:
  every call of \<open>parse\<close>, the one on the rule body and the ones in return position alike,
  takes one.
\<close>

fun parse :: "nat \<Rightarrow> jsstring \<Rightarrow> node list \<Rightarrow> message list \<Rightarrow> error + (node list \<times> message list)" where
  "parse 0 text result console = Inl StackExhausted"
| "parse (Suc depth) text result console =
     (if trim text = [] then Inr (result, console)
      else
        let nextCharAt = search text in
        if nextCharAt = -1 then
          (let property = tuple_of (map trim (split_str colon text));
               console1 = console_assert (tuple_length property = 2) text console
           in Inr (result @ [property], console1))
        else
          let nextChar = char_at text nextCharAt in
          if nextChar = Some semicolon then
            (let line = slice_str text 0 nextCharAt;
                 property = tuple_of (map trim (split_str colon line));
                 remainingLines = slice_from text (nextCharAt + 1);
                 resultSoFar = result @ [property];
                 console1 = console_assert (tuple_length property = 2) line console
             in parse depth remainingLines resultSoFar console1)
          else if nextChar = Some brace_open then
            (let bracketOpenAt = nextCharAt;
                 bracketCloseAt = indexOf text brace_close;
                 rule = trim (slice_str text 0 bracketOpenAt);
                 ruleBody = slice_str text (bracketOpenAt + 1) bracketCloseAt
             in case parse depth ruleBody [] console of
                  Inl e \<Rightarrow> Inl e
                | Inr (properties, console1) \<Rightarrow>
                    (let remainingLines = slice_from text (bracketCloseAt + 1);
                         resultSoFar = result @ [Nested rule properties]
                     in parse depth remainingLines resultSoFar console1))
          else Inl Unreachable)"

section \<open>Compiler\<close>

fun isNested :: "node \<Rightarrow> bool" where
  "isNested (Simple k vs) = False"
| "isNested (Nested r ps) = True"

definition isSimple :: "node \<Rightarrow> bool" where
  "isSimple propertyTuple = (isNested propertyTuple = False)"

fun tuple0 :: "node \<Rightarrow> jsstring" where
  "tuple0 (Simple k vs) = k"
| "tuple0 (Nested r ps) = r"

definition isCustomProperty :: "node \<Rightarrow> bool" where
  "isCustomProperty property = startsWith (tuple0 property) (lit ''--'')"

definition isNormalProperty :: "node \<Rightarrow> bool" where
  "isNormalProperty property = (isCustomProperty property = False)"

definition isAtRule :: "node \<Rightarrow> bool" where
  "isAtRule tuple = startsWith (tuple0 tuple) (lit ''@'')"

definition isPseudoClassRule :: "node \<Rightarrow> bool" where
  "isPseudoClassRule tuple = startsWith (tuple0 tuple) (lit '':'')"

text \<open>
  \<open>tuple.join(': ')\<close>. An element that is itself an array is rendered by
  \<open>Array.prototype.toString\<close>, which joins with a comma.
\<close>

fun array_toString :: "node \<Rightarrow> jsstring" where
  "array_toString (Simple k vs) = join (lit '','') (k # vs)"
| "array_toString (Nested r ps) = join (lit '','') [r, join (lit '','') (map array_toString ps)]"

fun tuple_join :: "node \<Rightarrow> jsstring" where
  "tuple_join (Simple k vs) = join (lit '': '') (k # vs)"
| "tuple_join (Nested r ps) = join (lit '': '') [r, join (lit '','') (map array_toString ps)]"

definition stringifyProperties :: "node list \<Rightarrow> jsstring" where
  "stringifyProperties properties = join (lit ''; '') (map tuple_join properties)"

text \<open>
  The second component of a nested tuple (the destructuring \<open>[pseudoClass, properties]\<close>).
  It is only applied to tuples that passed \<open>isNested\<close>.
\<close>

fun tuple1 :: "node \<Rightarrow> node list" where
  "tuple1 (Nested r ps) = ps"
| "tuple1 (Simple k vs) = []"

definition simpleRule :: "node list \<Rightarrow> compiledCSS" where
  "simpleRule simpleProperties =
     (if length simpleProperties > 0 then
        (let customProperties = filter isCustomProperty simpleProperties;
             normalProperties = filter isNormalProperty simpleProperties;
             ruleBody = placeholder @ lit '' { '' @ stringifyProperties normalProperties @ lit '' }'';
             hwClass = lit ''hw_'' @ hash ruleBody
         in \<lparr> classes = [hwClass],
              customProperties = customProperties,
              rules = [\<lparr> ruleBody = ruleBody, selector = lit ''.'' @ hwClass \<rparr>] \<rparr>)
      else \<lparr> classes = [], customProperties = [], rules = [] \<rparr>)"

definition pseudoRule :: "node \<Rightarrow> compiledCSS" where
  "pseudoRule tuple =
     (let pseudoClass = tuple0 tuple;
          properties = tuple1 tuple;
          ruleBody = placeholder @ lit '' { '' @ stringifyProperties properties @ lit '' }'';
          hwClass = lit ''hw_'' @ hash (pseudoClass @ hash ruleBody)
      in \<lparr> classes = [hwClass],
           customProperties = [],
           rules = [\<lparr> ruleBody = ruleBody, selector = lit ''.'' @ hwClass @ pseudoClass \<rparr>] \<rparr>)"

definition atRule :: "node \<Rightarrow> compiledCSS" where
  "atRule tuple =
     (let atQuery = tuple0 tuple;
          properties = tuple1 tuple;
          ruleBody = atQuery @ lit '' { '' @ placeholder @ lit '' { '' @
                     stringifyProperties properties @ lit '' } }'';
          hwClass = lit ''hw_'' @ hash (atQuery @ hash ruleBody)
      in \<lparr> classes = [hwClass],
           customProperties = [],
           rules = [\<lparr> ruleBody = ruleBody, selector = lit ''.'' @ hwClass \<rparr>] \<rparr>)"

definition accumulate :: "compiledCSS \<Rightarrow> compiledCSS \<Rightarrow> compiledCSS" where
  "accumulate accumulated current =
     \<lparr> classes = classes accumulated @ classes current,
       customProperties = customProperties accumulated @ customProperties current,
       rules = rules accumulated @ rules current \<rparr>"

text \<open>
  \<open>[simpleRule, ...pseudoRules, ...atRules].reduce(...)\<close> without an initial value: the
  first element is the start of the fold.
\<close>

definition compile :: "node list \<Rightarrow> compiledCSS" where
  "compile properties =
     (let simpleProperties = filter isSimple properties;
          nestedRules = filter isNested properties;
          atQueryRules = filter isAtRule nestedRules;
          pseudoClassRules = filter isPseudoClassRule nestedRules;
          pseudoRules = map pseudoRule pseudoClassRules;
          atRules = map atRule atQueryRules
      in foldl accumulate (simpleRule simpleProperties) (pseudoRules @ atRules))"

section \<open>Stylesheet accumulator\<close>

text \<open>\<open>selectors.add(selector)\<close>\<close>

definition set_add :: "jsstring list \<Rightarrow> jsstring \<Rightarrow> jsstring list" where
  "set_add selectors s = (if s \<in> set selectors then selectors else selectors @ [s])"

text \<open>
  \<open>addRule\<close>: the entry of \<open>ruleBody\<close> is looked up; a missing one is inserted last with the
  singleton set, an existing one gets the selector added to its set, in place.
\<close>

fun addRule :: "stylesheet \<Rightarrow> jsstring \<Rightarrow> jsstring \<Rightarrow> stylesheet" where
  "addRule [] body sel = [(body, [sel])]"
| "addRule ((k, selectors) # rest) body sel =
     (if k = body then (k, set_add selectors sel) # rest
      else (k, selectors) # addRule rest body sel)"

definition stringifyStylesheet :: "stylesheet \<Rightarrow> jsstring" where
  "stringifyStylesheet sheet =
     join (lit [CHR 0x0A])
       (map (\<lambda>(body, selectors).
               (let selectorsString = join (lit '', '') selectors
                in replace body placeholder selectorsString))
            sheet)"

text \<open>\<open>rules.forEach(({ ruleBody, selector }) => addRule(stylesheet, ruleBody, selector))\<close>\<close>

definition addRules :: "stylesheet \<Rightarrow> rule list \<Rightarrow> stylesheet" where
  "addRules sheet rs = foldl (\<lambda>s r. addRule s (ruleBody r) (selector r)) sheet rs"

section \<open>Per-node hook and render pass\<close>

text \<open>The \<open>style\<close> property by \<open>typeof\<close>: undefined, a string, or anything else.\<close>

datatype style_value = Undefined | Str jsstring | NonString jsstring

record 'p vnode =
  vtype :: jsstring
  class_prop :: "jsstring option"
  style_prop :: style_value
  other_props :: 'p

record state =
  stylesheet :: stylesheet
  console :: "message list"

text \<open>\<open>applyClass\<close>: the empty string and \<open>undefined\<close> are falsy.\<close>

definition applyClass :: "'p vnode \<Rightarrow> jsstring \<Rightarrow> 'p vnode" where
  "applyClass vnode hwClass =
     (case class_prop vnode of
        Some c \<Rightarrow>
          (if c \<noteq> [] then vnode\<lparr> class_prop := Some (c @ lit '' '' @ hwClass) \<rparr>
           else vnode\<lparr> class_prop := Some hwClass \<rparr>)
      | None \<Rightarrow> vnode\<lparr> class_prop := Some hwClass \<rparr>)"

definition hook :: "nat \<Rightarrow> 'p vnode \<Rightarrow> state \<Rightarrow> error + ('p vnode \<times> state)" where
  "hook depth vnode st =
     (case style_prop vnode of
        Undefined \<Rightarrow> Inr (vnode, st)
      | NonString ty \<Rightarrow> Inr (vnode, st\<lparr> console := console st @ [Warning ty (vtype vnode)] \<rparr>)
      | Str style \<Rightarrow>
          (case parse depth style [] (console st) of
             Inl e \<Rightarrow> Inl e
           | Inr (parsed, console1) \<Rightarrow>
               (let compiled = compile parsed;
                    vnode1 = foldl applyClass vnode (classes compiled);
                    vnode2 = vnode1\<lparr> style_prop :=
                               (if length (customProperties compiled) > 0
                                then Str (stringifyProperties (customProperties compiled))
                                else Undefined) \<rparr>;
                    sheet = addRules (stylesheet st) (rules compiled)
                in Inr (vnode2, \<lparr> stylesheet = sheet, console = console1 \<rparr>))))"

text \<open>
  The render pass of the plugin. \<open>context.render()\<close> belongs to the framework: it renders
  the page, and the JSX runtime passes every node it creates to \<open>hook\<close>; here it is the
  list of those nodes, in creation order. Then the stylesheet is serialised and cleared.
\<close>

fun run_hooks :: "nat \<Rightarrow> 'p vnode list \<Rightarrow> state \<Rightarrow> error + ('p vnode list \<times> state)" where
  "run_hooks depth [] st = Inr ([], st)"
| "run_hooks depth (v # vs) st =
     (case hook depth v st of
        Inl e \<Rightarrow> Inl e
      | Inr (v', st1) \<Rightarrow>
          (case run_hooks depth vs st1 of
             Inl e \<Rightarrow> Inl e
           | Inr (vs', st2) \<Rightarrow> Inr (v' # vs', st2)))"

definition render :: "nat \<Rightarrow> 'p vnode list \<Rightarrow> state \<Rightarrow> error + (jsstring \<times> state)" where
  "render depth vnodes st =
     (case run_hooks depth vnodes st of
        Inl e \<Rightarrow> Inl e
      | Inr (vs', st1) \<Rightarrow>
          (let cssText = stringifyStylesheet (stylesheet st1)
           in Inr (cssText, st1\<lparr> stylesheet := [] \<rparr>)))"

section \<open>Reference algorithms\<close>

text \<open>
  The hash as the specification words it: a 32-bit accumulator seeded with 313, updated
  for each character by \<open>(accumulator * 311 + code) mod 2^32\<close>, then five 6-bit fields at
  the offsets 0, 6, 12, 18, 24, each looked up in the alphabet. The character code is a
  parameter: the specification takes the code point of the character, the source the
  character's first UTF-16 code unit.
\<close>

definition codepoint :: "jsstring \<Rightarrow> nat" where
  "codepoint ch =
     (case ch of
        [] \<Rightarrow> 0
      | [c] \<Rightarrow> unat c
      | hi # lo # _ \<Rightarrow> 0x10000 + (unat hi - 0xD800) * 0x400 + (unat lo - 0xDC00))"

definition first_unit :: "jsstring \<Rightarrow> nat" where
  "first_unit ch = (case ch of [] \<Rightarrow> 0 | c # _ \<Rightarrow> unat c)"

definition reference_accumulator :: "(jsstring \<Rightarrow> nat) \<Rightarrow> jsstring \<Rightarrow> nat" where
  "reference_accumulator code data =
     foldl (\<lambda>acc ch. (acc * 311 + code ch) mod 2 ^ 32) 313 (spread data)"

definition reference_token :: "nat \<Rightarrow> jsstring" where
  "reference_token acc =
     concat (map (\<lambda>offset. alphabet_at (acc div 2 ^ offset mod 64)) [0, 6, 12, 18, 24])"

definition hash_spec :: "jsstring \<Rightarrow> jsstring" where
  "hash_spec data = reference_token (reference_accumulator codepoint data)"

text \<open>
  Serialisation as the specification words it: the joined selectors are put, as they are,
  in the place of the placeholder token.
\<close>

definition substitute :: "jsstring \<Rightarrow> jsstring \<Rightarrow> jsstring \<Rightarrow> jsstring" where
  "substitute body token s =
     (case find_first token body of
        None \<Rightarrow> body
      | Some p \<Rightarrow> take p body @ s @ drop (p + length token) body)"

definition serialize_spec :: "stylesheet \<Rightarrow> jsstring" where
  "serialize_spec sheet =
     join (lit [CHR 0x0A])
       (map (\<lambda>(body, selectors). substitute body placeholder (join (lit '', '') selectors)) sheet)"

section \<open>Example inputs\<close>

definition hover_blue :: "node list" where
  "hover_blue = [Nested (lit '':hover'') [Simple (lit ''color'') [lit ''blue'']]]"

definition focus_blue :: "node list" where
  "focus_blue = [Nested (lit '':focus'') [Simple (lit ''color'') [lit ''blue'']]]"

definition color_red :: "node list" where
  "color_red = [Simple (lit ''color'') [lit ''red'']]"

definition hover_dollar :: "node list" where
  "hover_dollar = [Nested (lit '':hover$&'') [Simple (lit ''color'') [lit ''red'']]]"

section \<open>Shape of the compiler's output\<close>

text \<open>
  A class name and the rule emitted with it: the class is \<open>hw_\<close> and a 5-character token
  of alphabet symbols, 8 characters in all, and the selector is a dot, the class name, and
  either nothing or one of the given fragments.
\<close>

definition class_and_rule :: "jsstring list \<Rightarrow> jsstring \<Rightarrow> rule \<Rightarrow> bool" where
  "class_and_rule fragments cls r \<longleftrightarrow>
     (\<exists>token suffix. cls = lit ''hw_'' @ token \<and> length token = 5 \<and> set token \<subseteq> set symbols \<and>
        length cls = 8 \<and> selector r = lit ''.'' @ cls @ suffix \<and> suffix \<in> set ([] # fragments))"

section \<open>Declarations\<close>

text \<open>The tuple \<open>parse\<close> makes of a declaration segment: \<open>line.split(':').map(trim)\<close>.\<close>

definition declaration_of :: "jsstring \<Rightarrow> node" where
  "declaration_of line = tuple_of (map trim (split_str colon line))"

section \<open>Placeholder-free text\<close>

text \<open>
  A string is free of the placeholder when the placeholder token does not occur in it, and
  a parsed node is when all its strings are.
\<close>

definition ph_free :: "jsstring \<Rightarrow> bool" where
  "ph_free s \<longleftrightarrow> \<not> sublist placeholder s"

fun ph_free_node :: "node \<Rightarrow> bool" where
  "ph_free_node (Simple k vs) \<longleftrightarrow> ph_free k \<and> list_all ph_free vs"
| "ph_free_node (Nested r ps) \<longleftrightarrow> ph_free r \<and> list_all ph_free_node ps"

text \<open>
  The replacement patterns that \<open>String.prototype.replace\<close> expands when the pattern is a
  string: a dollar sign followed by a dollar sign, an ampersand, a backtick or an
  apostrophe. \<open>has_pattern\<close> says that one of them occurs in a replacement text.
\<close>

definition is_pattern_char :: "16 word \<Rightarrow> bool" where
  "is_pattern_char d \<longleftrightarrow> d = dollar \<or> d = ampersand \<or> d = backtick \<or> d = apostrophe"

fun has_pattern :: "jsstring \<Rightarrow> bool" where
  "has_pattern [] = False"
| "has_pattern [c] = False"
| "has_pattern (c # d # cs) = ((c = dollar \<and> is_pattern_char d) \<or> has_pattern (d # cs))"

text \<open>
  The pseudo-class fragments of a parsed input: the selectors of its nested rules that
  start with a colon, which \<open>compile\<close> appends to the class selectors.
\<close>

definition pseudo_fragments :: "node list \<Rightarrow> jsstring list" where
  "pseudo_fragments properties = map tuple0 (filter isPseudoClassRule (filter isNested properties))"

text \<open>
  The rule bodies the compiler builds from placeholder-free nodes: the placeholder, once,
  in the selector position of a rule, which may be wrapped in an at-rule. A selector is
  good when it is free of the placeholder and of replacement patterns.
\<close>

definition good_body :: "jsstring \<Rightarrow> bool" where
  "good_body body \<longleftrightarrow>
     (\<exists>q sp. ph_free q \<and> ph_free sp \<and>
        (body = placeholder @ lit '' { '' @ sp @ lit '' }'' \<or>
         body = q @ lit '' { '' @ placeholder @ lit '' { '' @ sp @ lit '' } }''))"

definition good_selector :: "jsstring \<Rightarrow> bool" where
  "good_selector sel \<longleftrightarrow> ph_free sel \<and> \<not> has_pattern sel"

definition good_rule :: "rule \<Rightarrow> bool" where
  "good_rule r \<longleftrightarrow> good_body (ruleBody r) \<and> good_selector (selector r)"

definition good_sheet :: "stylesheet \<Rightarrow> bool" where
  "good_sheet sheet \<longleftrightarrow>
     (\<forall>entry\<in>set sheet. good_body (fst entry) \<and> (\<forall>s\<in>set (snd entry). good_selector s))"

text \<open>A node carrying a style string, and the state before the first render pass.\<close>

definition node_with_style :: "jsstring \<Rightarrow> unit vnode" where
  "node_with_style s = \<lparr> vtype = lit ''div'', class_prop = None, style_prop = Str s, other_props = () \<rparr>"

definition empty_state :: state where
  "empty_state = \<lparr> stylesheet = [], console = [] \<rparr>"

section \<open>Properties of the hasher\<close>

lemma field_unat:
  "unat (drop_bit n (h AND push_bit n (mask 6)) :: 32 word) = unat h div 2 ^ n mod 64"
proof -
  have "drop_bit n (h AND push_bit n (mask 6)) = take_bit 6 (drop_bit n h)"
    by (rule bit_word_eqI) (auto simp: bit_simps dest: bit_imp_le_length)
  then have "unat (drop_bit n (h AND push_bit n (mask 6))) = take_bit 6 (drop_bit n (unat h))"
    by (simp only: unsigned_take_bit_eq unat_drop_bit_eq)
  then show ?thesis
    by (simp add: take_bit_eq_mod drop_bit_eq_div)
qed

lemma masks_eq: "masks = map (\<lambda>index. push_bit (index * 6) (mask 6)) [0..<5]"
  by (simp add: masks_def upt_rec mask_eq_exp_minus_1 push_bit_eq_mult)

lemma spread_nonempty: "[] \<notin> set (spread data)"
  by (induction data rule: spread.induct) auto

lemma unat_ucast_16_32: "unat (ucast (c :: 16 word) :: 32 word) = unat c"
proof -
  have "unat c < 2 ^ 16" using unsigned_less [of c] by simp
  then have "unat c < 2 ^ 32" by simp
  then show ?thesis by (simp add: unsigned_ucast_eq take_bit_eq_mod)
qed

lemma hash_step_unat:
  "ch \<noteq> [] \<Longrightarrow> unat (hash_step h ch) = (unat h * 311 + first_unit ch) mod 2 ^ 32"
  by (cases ch)
    (simp_all add: hash_step_def first_unit_def unat_word_ariths unat_ucast_16_32 mod_simps)

lemma foldl_hash_step:
  "[] \<notin> set xs \<Longrightarrow>
   unat (foldl hash_step h xs) =
   foldl (\<lambda>acc ch. (acc * 311 + first_unit ch) mod 2 ^ 32) (unat h) xs"
  by (induction xs arbitrary: h) (auto simp: hash_step_unat)

lemma hashInt_reference: "unat (hashInt data) = reference_accumulator first_unit data"
  using foldl_hash_step [OF spread_nonempty, of 313 data]
  by (simp add: hashInt_def reference_accumulator_def)

lemma join_empty: "join [] xs = concat xs"
  by (induction "[] :: jsstring" xs rule: join.induct) auto

lemma hash_fields:
  "hash data =
   concat (map (\<lambda>index. alphabet_at (unat (hashInt data) div 2 ^ (index * 6) mod 64)) [0..<5])"
proof -
  have "zip masks [0..<length masks] =
        map (\<lambda>index. (push_bit (index * 6) (mask 6), index)) [0..<5]"
    by (simp only: masks_eq length_map length_upt zip_map1 zip_same_conv_map map_map o_def
        case_prod_conv minus_nat.diff_0)
  then show ?thesis
    by (simp only: hash_def join_empty map_map o_def case_prod_conv field_unat)
qed

lemma hash_units: "hash data = reference_token (reference_accumulator first_unit data)"
  by (simp add: hash_fields reference_token_def hashInt_reference upt_rec)

lemma alphabet_singletons: "alphabet = map (\<lambda>c. [c]) symbols"
  by (simp add: alphabet_def symbols_def lit_def is_high_surrogate_def is_low_surrogate_def)

lemma length_symbols: "length symbols = 64"
  by (simp add: symbols_def lit_def)

lemma alphabet_at_symbol: "i < 64 \<Longrightarrow> alphabet_at i = [symbols ! i]"
  by (simp add: alphabet_at_def alphabet_singletons length_symbols)

lemma reference_token_length: "length (reference_token acc) = 5"
  by (simp add: reference_token_def alphabet_at_symbol)

lemma reference_token_symbols: "set (reference_token acc) \<subseteq> set symbols"
  by (simp add: reference_token_def alphabet_at_symbol length_symbols)

lemma length_hash: "length (hash data) = 5"
  by (simp only: hash_units reference_token_length)

lemma set_hash: "set (hash data) \<subseteq> set symbols"
  by (simp only: hash_units reference_token_symbols)

lemma spread_no_high_surrogate:
  "\<forall>c\<in>set data. \<not> is_high_surrogate c \<Longrightarrow> spread data = map (\<lambda>c. [c]) data"
  by (induction data rule: spread.induct) auto

lemma reference_accumulator_bmp:
  assumes "\<forall>c\<in>set data. \<not> is_high_surrogate c"
  shows "reference_accumulator codepoint data = reference_accumulator first_unit data"
proof -
  have "foldl (\<lambda>acc ch. (acc * 311 + codepoint ch) mod 2 ^ 32) a (map (\<lambda>c. [c]) xs) =
        foldl (\<lambda>acc ch. (acc * 311 + first_unit ch) mod 2 ^ 32) a (map (\<lambda>c. [c]) xs)"
    for a :: nat and xs :: jsstring
    by (induction xs arbitrary: a) (simp_all add: codepoint_def first_unit_def)
  then show ?thesis
    by (simp add: reference_accumulator_def spread_no_high_surrogate [OF assms])
qed

text \<open>
  C2: \<open>hash\<close> is the reference algorithm (accumulator 313, step
  \<open>(accumulator * 311 + code) mod 2^32\<close>, five 6-bit fields at the offsets 0, 6, 12, 18
  and 24 looked up in the 64-entry alphabet), where the code of a character is its first
  UTF-16 code unit; the token has length 5 and all its characters are alphabet symbols; on
  a string without high surrogates the code is the code point and \<open>hash\<close> is the
  algorithm as the specification words it.
\<close>

theorem hash_reference_algorithm:
  "hash data = reference_token (reference_accumulator first_unit data) \<and>
   length (hash data) = 5 \<and>
   set (hash data) \<subseteq> set symbols \<and>
   length alphabet = 64 \<and>
   ((\<forall>c\<in>set data. \<not> is_high_surrogate c) \<longrightarrow> hash data = hash_spec data)"
proof -
  have "length alphabet = 64"
    by (simp add: alphabet_singletons length_symbols)
  moreover have "hash data = hash_spec data" if "\<forall>c\<in>set data. \<not> is_high_surrogate c"
    by (simp only: hash_units hash_spec_def reference_accumulator_bmp [OF that])
  ultimately show ?thesis
    using hash_units length_hash set_hash by blast
qed

theorem hash_reference_algorithm_witness:
  "hash (lit ''color'') = hash_spec (lit ''color'') \<and>
   length (hash (lit ''color'')) = 5"
proof -
  have bmp: "\<forall>c\<in>set (lit ''color''). \<not> is_high_surrogate c"
    by (simp add: lit_def is_high_surrogate_def)
  with hash_reference_algorithm [of "lit ''color''"] show ?thesis
    by blast
qed

text \<open>
  The specification's wording of C2 fails on a character outside the Basic Multilingual
  Plane, here U+1F600 (the surrogate pair D83D DE00): the source adds the high surrogate
  55357, the specification the code point 128512. The alphabet has 64 entries, but
  the digit 0 is at index 0 and again at index 10.
\<close>

theorem hash_codepoint_counterexample:
  "hash [0xD83D, 0xDE00] \<noteq> hash_spec [0xD83D, 0xDE00] \<and> alphabet ! 0 = alphabet ! 10"
  by (simp add: hash_units hash_spec_def reference_token_def reference_accumulator_def
      first_unit_def codepoint_def is_high_surrogate_def is_low_surrogate_def
      alphabet_at_symbol alphabet_singletons symbols_def lit_def)

section \<open>Properties of the compiler and the accumulator\<close>

lemma hash_blue: "hash (placeholder @ lit '' { color: blue }'') = lit ''62jFp''"
  by (simp add: hash_units reference_token_def reference_accumulator_def first_unit_def
      is_high_surrogate_def is_low_surrogate_def alphabet_at_symbol symbols_def lit_def placeholder_def)

lemma hash_hover: "hash (lit '':hover'' @ lit ''62jFp'') = lit ''Qfa8t''"
  by (simp add: hash_units reference_token_def reference_accumulator_def first_unit_def
      is_high_surrogate_def is_low_surrogate_def alphabet_at_symbol symbols_def lit_def)

lemma hash_focus: "hash (lit '':focus'' @ lit ''62jFp'') = lit ''EppsB''"
  by (simp add: hash_units reference_token_def reference_accumulator_def first_unit_def
      is_high_surrogate_def is_low_surrogate_def alphabet_at_symbol symbols_def lit_def)

lemma pseudo_single:
  "startsWith r (lit '':'') \<Longrightarrow>
   compile [Nested r ps] = pseudoRule (Nested r ps)"
  apply (simp add: compile_def Let_def isAtRule_def isPseudoClassRule_def isSimple_def simpleRule_def accumulate_def startsWith_def lit_def)
  done

text \<open>
  C8: compiling \<open>[(":hover", [("color","blue")])]\<close> and \<open>[(":focus", [("color","blue")])]\<close>
  gives two distinct class names: each is \<open>"hw_" + hash(pseudoFragment + hash(ruleBody))\<close>,
  here \<open>hw_Qfa8t\<close> and \<open>hw_EppsB\<close>.
\<close>

theorem pseudo_class_in_hash_key:
  "classes (compile hover_blue) =
     [lit ''hw_'' @ hash (lit '':hover'' @ hash (placeholder @ lit '' { color: blue }''))] \<and>
   classes (compile focus_blue) =
     [lit ''hw_'' @ hash (lit '':focus'' @ hash (placeholder @ lit '' { color: blue }''))] \<and>
   classes (compile hover_blue) = [lit ''hw_Qfa8t''] \<and>
   classes (compile focus_blue) = [lit ''hw_EppsB''] \<and>
   classes (compile hover_blue) \<noteq> classes (compile focus_blue)"
proof -
  have h: "classes (compile hover_blue) =
     [lit ''hw_'' @ hash (lit '':hover'' @ hash (placeholder @ lit '' { color: blue }''))]"
    by (simp add: hover_blue_def pseudo_single startsWith_def pseudoRule_def Let_def
        stringifyProperties_def lit_def)
  have f: "classes (compile focus_blue) =
     [lit ''hw_'' @ hash (lit '':focus'' @ hash (placeholder @ lit '' { color: blue }''))]"
    by (simp add: focus_blue_def pseudo_single startsWith_def pseudoRule_def Let_def
        stringifyProperties_def lit_def)
  have h2: "classes (compile hover_blue) = [lit ''hw_Qfa8t'']"
    by (simp only: h hash_blue hash_hover) (simp add: lit_def)
  have f2: "classes (compile focus_blue) = [lit ''hw_EppsB'']"
    by (simp only: f hash_blue hash_focus) (simp add: lit_def)
  have "classes (compile hover_blue) \<noteq> classes (compile focus_blue)"
    unfolding h2 f2 by (simp add: lit_def)
  with h f h2 f2 show ?thesis by blast
qed


lemma getSubstitution_no_pattern:
  "\<not> has_pattern t \<Longrightarrow> getSubstitution m pre post t = t"
  by (induction m pre post t rule: getSubstitution.induct) (auto simp: is_pattern_char_def)

lemma no_dollar_no_pattern: "dollar \<notin> set t \<Longrightarrow> \<not> has_pattern t"
  by (induction t rule: has_pattern.induct) auto

lemma has_pattern_append:
  "has_pattern (a @ b) \<longleftrightarrow>
   has_pattern a \<or> has_pattern b \<or> (a \<noteq> [] \<and> last a = dollar \<and> b \<noteq> [] \<and> is_pattern_char (hd b))"
proof (induction a rule: has_pattern.induct)
  case 1
  show ?case by simp
next
  case (2 c)
  show ?case by (cases b) auto
next
  case (3 c d cs)
  then show ?case by auto
qed

lemma has_pattern_after:
  assumes "dollar \<notin> set x"
  shows "has_pattern (x @ b) \<longleftrightarrow> has_pattern b"
proof -
  have "last x \<noteq> dollar" if "x \<noteq> []"
    using assms last_in_set [OF that] by auto
  then show ?thesis
    using no_dollar_no_pattern [OF assms] by (auto simp: has_pattern_append)
qed

lemma has_pattern_join:
  "\<forall>s\<in>set sels. \<not> has_pattern s \<Longrightarrow> \<not> has_pattern (join (lit '', '') sels)"
proof (induction sels rule: induct_list012)
  case 1
  show ?case by simp
next
  case (2 x)
  then show ?case by simp
next
  case (3 x y zs)
  have sep: "lit '', '' = [0x2C, 0x20]" by (simp add: lit_def)
  have d: "dollar \<notin> set (lit '', '')" by (simp add: sep dollar_def)
  from 3 have "\<not> has_pattern (join (lit '', '') (y # zs))" by simp
  with has_pattern_after [OF d, of "join (lit '', '') (y # zs)"]
  have "\<not> has_pattern (lit '', '' @ join (lit '', '') (y # zs))"
    by blast
  moreover have "\<not> is_pattern_char (hd (lit '', '' @ join (lit '', '') (y # zs)))"
    by (simp add: sep is_pattern_char_def dollar_def ampersand_def backtick_def apostrophe_def)
  moreover from 3(3) have "\<not> has_pattern x" by simp
  ultimately have "\<not> has_pattern (x @ lit '', '' @ join (lit '', '') (y # zs))"
    by (simp only: has_pattern_append [of x]) blast
  then show ?case by simp
qed

lemma replace_no_pattern:
  "\<not> has_pattern r \<Longrightarrow> replace body pat r = substitute body pat r"
  by (simp add: replace_def substitute_def getSubstitution_no_pattern Let_def split: option.splits)

lemma addRule_keys:
  "map fst (addRule sheet body sel) =
   (if body \<in> set (map fst sheet) then map fst sheet else map fst sheet @ [body])"
  by (induction sheet body sel rule: addRule.induct) auto

text \<open>
  Serialisation where it does what it is meant to: when no selector of the accumulator
  holds a replacement pattern, each rule is its body with the joined selectors in the
  place of the placeholder.
\<close>

lemma serialize_without_patterns:
  assumes "\<forall>entry\<in>set sheet. \<forall>s\<in>set (snd entry). \<not> has_pattern s"
  shows "stringifyStylesheet sheet = serialize_spec sheet"
proof -
  have "map (\<lambda>(body, selectors). replace body placeholder (join (lit '', '') selectors)) sheet =
        map (\<lambda>(body, selectors). substitute body placeholder (join (lit '', '') selectors)) sheet"
    using assms by (intro map_cong) (auto simp: replace_no_pattern has_pattern_join)
  then show ?thesis
    unfolding stringifyStylesheet_def serialize_spec_def Let_def by (rule arg_cong)
qed

lemma serialize_examples:
  "stringifyStylesheet [(placeholder @ lit '' { color: red; }'', [lit ''.a'', lit ''.b''])] =
     lit ''.a, .b { color: red; }''"
  "stringifyStylesheet [] = []"
  by (simp_all add: stringifyStylesheet_def replace_def placeholder_def lit_def Let_def dollar_def)

lemma compile_simple:
  assumes "\<forall>p\<in>set ps. isSimple p"
  shows "compile ps = simpleRule ps"
proof -
  have "filter isSimple ps = ps" using assms by (simp add: filter_id_conv)
  moreover have "filter isNested ps = []" using assms by (auto simp: filter_empty_conv isSimple_def)
  ultimately show ?thesis by (simp add: compile_def)
qed

text \<open>
  C1: compiling a non-empty set of simple declarations gives one class and one rule whose
  selector is the class name after a dot; compiling it again gives the same class, rule body
  and selector, so merging the rules of both compilations into an empty accumulator gives
  a single map entry whose selector set has that one selector as its only member.
\<close>

theorem same_declarations_share_selector:
  assumes "ps \<noteq> []" and "\<forall>p\<in>set ps. isSimple p"
  shows "\<exists>c b. classes (compile ps) = [c] \<and>
               rules (compile ps) = [\<lparr> ruleBody = b, selector = lit ''.'' @ c \<rparr>] \<and>
               addRules (addRules [] (rules (compile ps))) (rules (compile ps)) = [(b, [lit ''.'' @ c])]"
  using assms(1) by (simp add: compile_simple [OF assms(2)] simpleRule_def Let_def addRules_def set_add_def)

theorem same_declarations_share_selector_witness:
  "\<exists>c b. classes (compile color_red) = [c] \<and>
         addRules (addRules [] (rules (compile color_red)))
                  (rules (compile color_red)) = [(b, [lit ''.'' @ c])]"
proof -
  have "\<forall>p\<in>set color_red. isSimple p" by (simp add: color_red_def isSimple_def)
  moreover have "color_red \<noteq> []" by (simp add: color_red_def)
  ultimately show ?thesis using same_declarations_share_selector [of color_red] by blast
qed

lemma hash_red: "hash (placeholder @ lit '' { color: red }'') = lit ''CTY41''"
  by (simp add: hash_units reference_token_def reference_accumulator_def first_unit_def
      is_high_surrogate_def is_low_surrogate_def alphabet_at_symbol symbols_def lit_def placeholder_def)

lemma simpleRule_nonempty:
  "ps \<noteq> [] \<Longrightarrow>
   simpleRule ps =
     \<lparr> classes = [lit ''hw_'' @ hash (placeholder @ lit '' { '' @ stringifyProperties (filter isNormalProperty ps) @ lit '' }'')],
       customProperties = filter isCustomProperty ps,
       rules = [\<lparr> ruleBody = placeholder @ lit '' { '' @ stringifyProperties (filter isNormalProperty ps) @ lit '' }'',
                 selector = lit ''.'' @ lit ''hw_'' @ hash (placeholder @ lit '' { '' @ stringifyProperties (filter isNormalProperty ps) @ lit '' }'') \<rparr>] \<rparr>"
  by (simp add: simpleRule_def Let_def)

text \<open>
  C1 as the specification words it fails: for \<open>color: red\<close> compiled twice the single
  entry has a set of one selector, not of two.
\<close>

theorem selector_set_counterexample:
  "addRules (addRules [] (rules (compile color_red)))
            (rules (compile color_red)) =
   [(placeholder @ lit '' { color: red }'', [lit ''.hw_CTY41''])]"
proof -
  have c: "compile color_red = simpleRule color_red"
    by (rule compile_simple) (simp add: color_red_def isSimple_def)
  have b: "placeholder @ lit '' { '' @
           stringifyProperties (filter isNormalProperty color_red) @ lit '' }'' =
           placeholder @ lit '' { color: red }''"
    by (simp add: color_red_def isNormalProperty_def isCustomProperty_def startsWith_def
        stringifyProperties_def lit_def)
  have r: "rules (simpleRule color_red) =
     [\<lparr> ruleBody = placeholder @ lit '' { color: red }'', selector = lit ''.'' @ lit ''hw_'' @ lit ''CTY41'' \<rparr>]"
    by (subst simpleRule_nonempty) (simp_all only: b hash_red compiledCSS.simps, simp add: color_red_def)
  show ?thesis
    by (simp only: c r) (simp add: addRules_def set_add_def lit_def)
qed


lemmas hash_eval = hash_units reference_token_def reference_accumulator_def first_unit_def
  is_high_surrogate_def is_low_surrogate_def alphabet_at_symbol symbols_def lit_def placeholder_def

lemma hash_hover_dollar:
  "hash (lit '':hover$&'' @ lit ''CTY41'') = lit ''LW7Oq''"
  by (simp add: hash_eval)

lemma hover_dollar_rules:
  "rules (compile hover_dollar) =
     [\<lparr> ruleBody = placeholder @ lit '' { color: red }'',
        selector = lit ''.'' @ lit ''hw_'' @ lit ''LW7Oq'' @ lit '':hover$&'' \<rparr>]"
proof -
  have b: "placeholder @ lit '' { '' @ stringifyProperties [Simple (lit ''color'') [lit ''red'']] @ lit '' }'' =
           placeholder @ lit '' { color: red }''"
    by (simp add: stringifyProperties_def lit_def)
  show ?thesis
    unfolding hover_dollar_def
    by (subst pseudo_single) (simp_all only: pseudoRule_def Let_def tuple0.simps tuple1.simps b hash_red
         hash_hover_dollar compiledCSS.simps, simp_all add: startsWith_def lit_def)
qed

text \<open>
  C6: the code at the input where it fails. The style \<open>:hover$& { color: red }\<close> compiles
  to a rule with the selector \<open>.hw_LW7Oq:hover$&\<close>. Putting the joined selectors in the
  place of the placeholder gives \<open>.hw_LW7Oq:hover$& { color: red }\<close>; the code passes them
  to \<open>replace\<close> as a replacement text, where \<open>$&\<close> stands for the matched text, and
  the serialised rule has the placeholder in it again.
\<close>

theorem stringifyStylesheet_expands_pattern:
  "rules (compile hover_dollar) =
     [\<lparr> ruleBody = placeholder @ lit '' { color: red }'', selector = lit ''.hw_LW7Oq:hover$&'' \<rparr>] \<and>
   stringifyStylesheet (addRules [] (rules (compile hover_dollar))) =
     lit ''.hw_LW7Oq:hover'' @ placeholder @ lit '' { color: red }'' \<and>
   serialize_spec (addRules [] (rules (compile hover_dollar))) =
     lit ''.hw_LW7Oq:hover$& { color: red }''"
proof -
  have sel: "lit ''.'' @ lit ''hw_'' @ lit ''LW7Oq'' @ lit '':hover$&'' = lit ''.hw_LW7Oq:hover$&''"
    by (simp add: lit_def)
  have sheet: "addRules [] (rules (compile hover_dollar)) =
               [(placeholder @ lit '' { color: red }'', [lit ''.hw_LW7Oq:hover$&''])]"
    by (simp add: hover_dollar_rules sel addRules_def)
  have "stringifyStylesheet [(placeholder @ lit '' { color: red }'', [lit ''.hw_LW7Oq:hover$&''])] =
        lit ''.hw_LW7Oq:hover'' @ placeholder @ lit '' { color: red }''"
    by (simp add: stringifyStylesheet_def replace_def placeholder_def lit_def dollar_def
        ampersand_def Let_def)
  moreover have "serialize_spec [(placeholder @ lit '' { color: red }'', [lit ''.hw_LW7Oq:hover$&''])] =
        lit ''.hw_LW7Oq:hover$& { color: red }''"
    by (simp add: serialize_spec_def substitute_def placeholder_def lit_def)
  ultimately show ?thesis
    unfolding sheet using hover_dollar_rules [unfolded sel] by simp
qed

section \<open>Properties of the hook\<close>

text \<open>
  C9: on a node whose style is absent or not a string the hook does not fail, whatever the
  stack left: it returns the node as it is, leaves the stylesheet alone, and writes at most
  one warning to the console.
\<close>

theorem hook_pass_through:
  assumes "\<forall>s. style_prop vnode \<noteq> Str s"
  shows "\<exists>st'. hook depth vnode st = Inr (vnode, st') \<and>
               stylesheet st' = stylesheet st \<and>
               (console st' = console st \<or>
                (\<exists>ty. console st' = console st @ [Warning ty (vtype vnode)]))"
  using assms by (cases "style_prop vnode") (simp_all add: hook_def)

theorem hook_pass_through_witness:
  "\<exists>st'. hook 0 \<lparr> vtype = lit ''div'', class_prop = Some (lit ''box''),
                    style_prop = NonString (lit ''object''), other_props = () \<rparr>
                  \<lparr> stylesheet = [], console = [] \<rparr> =
           Inr (\<lparr> vtype = lit ''div'', class_prop = Some (lit ''box''),
                  style_prop = NonString (lit ''object''), other_props = () \<rparr>, st') \<and>
         stylesheet st' = []"
  using hook_pass_through [of "\<lparr> vtype = lit ''div'', class_prop = Some (lit ''box''),
                    style_prop = NonString (lit ''object''), other_props = () \<rparr>" 0 "\<lparr> stylesheet = [], console = [] \<rparr>"]
  by auto

section \<open>Classes and rules correspond\<close>

lemma foldl_accumulate:
  "foldl accumulate c xs =
   \<lparr> classes = classes c @ concat (map classes xs),
     customProperties = customProperties c @ concat (map customProperties xs),
     rules = rules c @ concat (map rules xs) \<rparr>"
  by (induction xs arbitrary: c) (simp_all add: accumulate_def)

lemma class_token: "class_and_rule fs (lit ''hw_'' @ hash d) \<lparr> ruleBody = b, selector = lit ''.'' @ (lit ''hw_'' @ hash d) @ [] \<rparr>"
  unfolding class_and_rule_def using length_hash [of d] set_hash [of d]
  by (intro exI [of _ "hash d"] exI [of _ "[]"]) (simp add: lit_def)

lemma class_token_suffix:
  "f \<in> set fs \<Longrightarrow> class_and_rule fs (lit ''hw_'' @ hash d) \<lparr> ruleBody = b, selector = lit ''.'' @ (lit ''hw_'' @ hash d) @ f \<rparr>"
  unfolding class_and_rule_def using length_hash [of d] set_hash [of d]
  by (intro exI [of _ "hash d"] exI [of _ f]) (simp add: lit_def)

lemma simpleRule_shape: "list_all2 (class_and_rule fs) (classes (simpleRule ps)) (rules (simpleRule ps))"
  using class_token by (simp add: simpleRule_def Let_def)

lemma atRule_shape: "list_all2 (class_and_rule fs) (classes (atRule t)) (rules (atRule t))"
  using class_token by (simp add: atRule_def Let_def)

lemma pseudoRule_shape:
  "tuple0 t \<in> set fs \<Longrightarrow> list_all2 (class_and_rule fs) (classes (pseudoRule t)) (rules (pseudoRule t))"
  using class_token_suffix by (simp add: pseudoRule_def Let_def)

lemma concat_shape:
  "\<forall>x\<in>set xs. list_all2 P (classes (f x)) (rules (f x)) \<Longrightarrow>
   list_all2 P (concat (map classes (map f xs))) (concat (map rules (map f xs)))"
  by (induction xs) (auto intro: list_all2_appendI)

text \<open>
  C10: for every parsed input, the classes and the rules of \<open>compile\<close> correspond one to
  one, in the same order: each class name is \<open>hw_\<close> followed by a 5-character hash token
  (8 characters), and the selector of its rule is a dot followed by that class name,
  followed by nothing or by the fragment of one of the input's pseudo-class rules.
\<close>

theorem compile_classes_and_rules:
  "list_all2 (class_and_rule (map tuple0 (filter isPseudoClassRule (filter isNested properties))))
     (classes (compile properties)) (rules (compile properties))"
  unfolding compile_def Let_def foldl_accumulate compiledCSS.simps map_append concat_append
  by (intro list_all2_appendI simpleRule_shape concat_shape ballI atRule_shape pseudoRule_shape) simp

section \<open>Properties of the parser\<close>

lemma index_where_ge: "- 1 \<le> index_where P xs"
  by (induction xs) (auto simp: Let_def)

lemma index_where_none: "\<forall>x\<in>set xs. \<not> P x \<Longrightarrow> index_where P xs = - 1"
  by (induction xs) (auto simp: Let_def)

lemma index_where_first:
  "\<forall>y\<in>set l. \<not> P y \<Longrightarrow> P x \<Longrightarrow> index_where P (l @ x # r) = int (length l)"
  by (induction l) (auto simp: Let_def)

lemma slice_str_take: "slice_str str 0 (int n) = take n str"
  by (simp add: slice_str_def Let_def min_def)

lemma slice_from_drop: "slice_from str (int n) = drop n str"
  by (simp add: slice_from_def slice_str_def Let_def min_def)

lemma slice_from_drop_Suc: "slice_from str (int n + 1) = drop (Suc n) str"
  using slice_from_drop [of str "Suc n"] by (simp add: add.commute)

lemma slice_from_zero: "slice_from str 0 = str"
  using slice_from_drop [of str 0] by simp

lemma char_at_first: "char_at (l @ x # r) (int (length l)) = Some x"
  by (simp add: char_at_def)

lemma sublist_slice_str: "sublist (slice_str str a b) str"
proof -
  have "sublist (take n (drop m str)) str" for n m
    by (meson sublist_order.order_trans sublist_take sublist_drop)
  then show ?thesis by (simp add: slice_str_def Let_def)
qed

lemma trim_not_blank: "x \<in> set str \<Longrightarrow> \<not> is_whitespace x \<Longrightarrow> trim str \<noteq> []"
proof -
  assume x: "x \<in> set str" "\<not> is_whitespace x"
  then have "dropWhile is_whitespace str \<noteq> []" by (auto simp: dropWhile_eq_Nil_conv)
  moreover have "x \<in> set (dropWhile is_whitespace str)"
    using x by (metis (no_types, lifting) set_dropWhileD takeWhile_dropWhile_id set_append Un_iff set_takeWhileD)
  ultimately show ?thesis using x
    by (auto simp: trim_def dropWhile_eq_Nil_conv)
qed

lemma not_whitespace [simp]:
  "\<not> is_whitespace semicolon" "\<not> is_whitespace colon" "\<not> is_whitespace brace_open"
  "\<not> is_whitespace brace_close"
  by (simp_all add: is_whitespace_def semicolon_def colon_def brace_open_def brace_close_def)

lemma chars_distinct [simp]:
  "semicolon \<noteq> brace_open" "brace_open \<noteq> semicolon" "brace_open \<noteq> brace_close"
  "brace_close \<noteq> brace_open" "semicolon \<noteq> brace_close" "brace_close \<noteq> semicolon"
  "colon \<noteq> semicolon" "colon \<noteq> brace_open" "semicolon \<noteq> colon" "brace_open \<noteq> colon"
  by (simp_all add: semicolon_def colon_def brace_open_def brace_close_def)

lemma split_str_nonempty: "split_str c s \<noteq> []"
  by (induction s) (auto split: list.splits)

lemma length_split_str: "length (split_str c s) = Suc (count_list s c)"
  by (induction s) (auto split: list.splits simp: split_str_nonempty)

lemma tuple_length_declaration: "tuple_length (declaration_of line) = length (split_str colon line)"
proof (cases "split_str colon line")
  case Nil then show ?thesis using split_str_nonempty by blast
next
  case (Cons p ps) then show ?thesis by (simp add: declaration_of_def)
qed

lemma search_none: "semicolon \<notin> set str \<Longrightarrow> brace_open \<notin> set str \<Longrightarrow> search str = - 1"
  unfolding search_def by (rule index_where_none) auto

lemma search_first:
  "semicolon \<notin> set l \<Longrightarrow> brace_open \<notin> set l \<Longrightarrow> x = semicolon \<or> x = brace_open \<Longrightarrow>
   search (l @ x # r) = int (length l)"
  unfolding search_def by (rule index_where_first) auto

lemma parse_blank: "trim str = [] \<Longrightarrow> parse (Suc depth) str result con = Inr (result, con)"
  by simp

lemma parse_last_declaration:
  assumes "trim str \<noteq> []" "semicolon \<notin> set str" "brace_open \<notin> set str"
  shows "parse (Suc depth) str result con =
         Inr (result @ [declaration_of str],
              console_assert (length (split_str colon str) = 2) str con)"
  using assms
  by (simp add: search_none Let_def tuple_length_declaration [unfolded declaration_of_def] declaration_of_def)

lemma parse_terminated_declaration:
  assumes "semicolon \<notin> set line" "brace_open \<notin> set line"
  shows "parse (Suc depth) (line @ semicolon # rest) result con =
         parse depth rest (result @ [declaration_of line])
               (console_assert (length (split_str colon line) = 2) line con)"
proof -
  have "trim (line @ semicolon # rest) \<noteq> []"
    by (rule trim_not_blank [of semicolon]) simp_all
  moreover have "search (line @ semicolon # rest) = int (length line)"
    using assms by (simp add: search_first)
  ultimately show ?thesis
    by (simp add: Let_def char_at_first slice_str_take slice_from_drop_Suc
        tuple_length_declaration [unfolded declaration_of_def] declaration_of_def del: parse.simps(2))
       (simp add: Let_def char_at_first slice_str_take slice_from_drop_Suc
        tuple_length_declaration [unfolded declaration_of_def] declaration_of_def)
qed

lemma parse_rule:
  assumes "semicolon \<notin> set l" "brace_open \<notin> set l"
  shows "parse (Suc depth) (l @ brace_open # r) result con =
         (case parse depth (slice_str (l @ brace_open # r) (int (length l) + 1)
                              (indexOf (l @ brace_open # r) brace_close)) [] con of
            Inl e \<Rightarrow> Inl e
          | Inr (properties, con1) \<Rightarrow>
              parse depth (slice_from (l @ brace_open # r) (indexOf (l @ brace_open # r) brace_close + 1))
                    (result @ [Nested (trim l) properties]) con1)"
proof -
  have "trim (l @ brace_open # r) \<noteq> []"
    by (rule trim_not_blank [of brace_open]) simp_all
  moreover have "search (l @ brace_open # r) = int (length l)"
    using assms by (simp add: search_first)
  ultimately show ?thesis
    by (simp add: Let_def char_at_first slice_str_take split: sum.splits prod.splits)
qed

lemma split_str_no_sep: "c \<notin> set v \<Longrightarrow> split_str c v = [v]"
  by (induction v) auto

lemma split_str_first: "c \<notin> set k \<Longrightarrow> split_str c (k @ c # v) = k # split_str c v"
  by (induction k) auto

lemma declaration_of_pair:
  "colon \<notin> set k \<Longrightarrow> colon \<notin> set v \<Longrightarrow> declaration_of (k @ colon # v) = Simple (trim k) [trim v]"
  by (simp add: declaration_of_def split_str_first split_str_no_sep)

lemma parse_total_declarations:
  "brace_open \<notin> set str \<Longrightarrow> length str < depth \<Longrightarrow> \<exists>r c. parse depth str res con = Inr (r, c)"
proof (induction depth arbitrary: str res con)
  case 0
  then show ?case by simp
next
  case (Suc depth)
  show ?case
  proof (cases "trim str = []")
    case True
    then show ?thesis by (simp add: parse_blank)
  next
    case False
    show ?thesis
    proof (cases "semicolon \<in> set str")
      case False
      with \<open>trim str \<noteq> []\<close> Suc.prems show ?thesis
        by (simp add: parse_last_declaration del: parse.simps)
    next
      case True
      then obtain l r where str: "str = l @ semicolon # r" and l: "semicolon \<notin> set l"
        by (meson split_list_first)
      from str Suc.prems have "brace_open \<notin> set l" "brace_open \<notin> set r" "length r < depth"
        by auto
      with Suc.IH [of r] l show ?thesis
        unfolding str by (simp add: parse_terminated_declaration del: parse.simps)
    qed
  qed
qed

lemma join_Cons: "join sep (x # xs) = (if xs = [] then x else x @ sep @ join sep xs)"
  by (cases xs) simp_all

lemma join_split_str: "join [c] (split_str c s) = s"
proof (induction s)
  case Nil
  show ?case by simp
next
  case (Cons x s)
  obtain p ps where ps: "split_str c s = p # ps"
    using split_str_nonempty by (cases "split_str c s") auto
  with Cons show ?case by (auto simp: join_Cons split: if_splits)
qed

lemma split_str_pieces: "p \<in> set (split_str c s) \<Longrightarrow> c \<notin> set p"
proof (induction s arbitrary: p)
  case Nil
  then show ?case by simp
next
  case (Cons x s)
  obtain q qs where qs: "split_str c s = q # qs"
    using split_str_nonempty by (cases "split_str c s") auto
  with Cons show ?case by (auto split: if_splits)
qed

lemma declaration_of_property:
  "colon \<notin> set k \<Longrightarrow>
   declaration_of (k @ colon # v) = Simple (trim k) (map trim (split_str colon v))"
  by (simp add: declaration_of_def split_str_first)

lemma two_pieces:
  "colon \<notin> set k \<Longrightarrow> length (split_str colon (k @ colon # v)) = 2 \<longleftrightarrow> colon \<notin> set v"
  by (simp add: split_str_first length_split_str count_list_0_iff)

lemma parse_declarations_only:
  "\<forall>l\<in>set (ls @ [fin]). semicolon \<notin> set l \<and> brace_open \<notin> set l \<Longrightarrow> length ls < depth \<Longrightarrow>
   parse depth (concat (map (\<lambda>l. l @ [semicolon]) ls) @ fin) res con =
   Inr (res @ map declaration_of (ls @ (if trim fin = [] then [] else [fin])),
        con @ map AssertionFailed
                (filter (\<lambda>l. length (split_str colon l) \<noteq> 2)
                        (ls @ (if trim fin = [] then [] else [fin]))))"
proof (induction ls arbitrary: depth res con)
  case Nil
  then obtain d where d: "depth = Suc d" by (cases depth) auto
  from Nil show ?case
    unfolding d
    by (cases "trim fin = []")
       (simp_all add: parse_blank parse_last_declaration console_assert_def del: parse.simps)
next
  case (Cons l ls)
  then obtain d where d: "depth = Suc d" and len: "length ls < d" by (cases depth) auto
  from Cons.prems have l: "semicolon \<notin> set l" "brace_open \<notin> set l"
    and rest: "\<forall>l\<in>set (ls @ [fin]). semicolon \<notin> set l \<and> brace_open \<notin> set l"
    by simp_all
  have "parse (Suc d) (l @ semicolon # (concat (map (\<lambda>l. l @ [semicolon]) ls) @ fin)) res con =
        parse d (concat (map (\<lambda>l. l @ [semicolon]) ls) @ fin) (res @ [declaration_of l])
          (console_assert (length (split_str colon l) = 2) l con)"
    by (rule parse_terminated_declaration [OF l])
  also have "\<dots> = Inr ((res @ [declaration_of l]) @
                        map declaration_of (ls @ (if trim fin = [] then [] else [fin])),
                      console_assert (length (split_str colon l) = 2) l con @
                        map AssertionFailed
                          (filter (\<lambda>l. length (split_str colon l) \<noteq> 2)
                                  (ls @ (if trim fin = [] then [] else [fin]))))"
    by (rule Cons.IH [OF rest len])
  finally show ?case
    unfolding d by (simp add: console_assert_def del: parse.simps)
qed

text \<open>
  C3: a declaration segment (a text without \<open>;\<close> and \<open>{\<close>) that does not split into
  two pieces at its colons does not make \<open>parse\<close> abort. As the last segment, its tuple
  of trimmed pieces is returned in the result and an assertion failure is written to the
  console. Ended by a semicolon, the tuple and the failure are added likewise, and the
  outcome of \<open>parse\<close> is its outcome on the text after the semicolon. On a text of
  declarations only, \<open>parse\<close> returns when the stack has more frames than the text has
  semicolons: the result holds the tuple of every segment, and the console one failure for
  each segment whose number of pieces is not two. The assertion tests the number only, not
  whether a piece is empty.
\<close>

theorem parse_malformed_declaration:
  assumes "semicolon \<notin> set line" and "brace_open \<notin> set line"
  shows "(trim line \<noteq> [] \<longrightarrow>
            parse (Suc depth) line result con =
            Inr (result @ [declaration_of line],
                 if length (split_str colon line) = 2 then con
                 else con @ [AssertionFailed line])) \<and>
         parse (Suc depth) (line @ semicolon # rest) result con =
           parse depth rest (result @ [declaration_of line])
             (if length (split_str colon line) = 2 then con else con @ [AssertionFailed line]) \<and>
         ((\<forall>l\<in>set (ls @ [fin]). semicolon \<notin> set l \<and> brace_open \<notin> set l) \<and> length ls < depth \<longrightarrow>
            parse depth (concat (map (\<lambda>l. l @ [semicolon]) ls) @ fin) result con =
            Inr (result @ map declaration_of (ls @ (if trim fin = [] then [] else [fin])),
                 con @ map AssertionFailed
                         (filter (\<lambda>l. length (split_str colon l) \<noteq> 2)
                                 (ls @ (if trim fin = [] then [] else [fin])))))"
proof -
  have "parse (Suc depth) (line @ semicolon # rest) result con =
           parse depth rest (result @ [declaration_of line])
             (if length (split_str colon line) = 2 then con else con @ [AssertionFailed line])"
    using assms by (simp add: parse_terminated_declaration console_assert_def del: parse.simps)
  moreover have "parse (Suc depth) line result con =
            Inr (result @ [declaration_of line],
                 if length (split_str colon line) = 2 then con
                 else con @ [AssertionFailed line])" if "trim line \<noteq> []"
    using assms that by (simp add: parse_last_declaration console_assert_def del: parse.simps)
  ultimately show ?thesis
    using parse_declarations_only [of ls fin depth result con] by blast
qed

theorem parse_malformed_declaration_witness:
  "parse (Suc (Suc (Suc 0)))
     (concat (map (\<lambda>l. l @ [semicolon]) [lit ''color'', lit '' top: 0'']) @ lit '' '') [] [] =
   Inr (map declaration_of [lit ''color'', lit '' top: 0''], [AssertionFailed (lit ''color'')])"
proof -
  have line: "semicolon \<notin> set (lit ''color'')" "brace_open \<notin> set (lit ''color'')"
    by (simp_all add: lit_def semicolon_def brace_open_def)
  have segments: "(\<forall>l\<in>set ([lit ''color'', lit '' top: 0''] @ [lit '' '']).
                    semicolon \<notin> set l \<and> brace_open \<notin> set l) \<and>
                 length [lit ''color'', lit '' top: 0''] < Suc (Suc (Suc 0))"
    by (simp add: lit_def semicolon_def brace_open_def)
  have blank: "trim (lit '' '') = []"
    by (simp add: lit_def trim_def is_whitespace_def)
  have pieces: "length (split_str colon (lit ''color'')) \<noteq> 2"
    "length (split_str colon (lit '' top: 0'')) = 2"
    by (simp_all add: lit_def colon_def)
  from segments parse_malformed_declaration [OF line, where depth = "Suc (Suc (Suc 0))"
        and ls = "[lit ''color'', lit '' top: 0'']" and fin = "lit '' ''"
        and result = "[]" and con = "[]"]
  have "parse (Suc (Suc (Suc 0)))
          (concat (map (\<lambda>l. l @ [semicolon]) [lit ''color'', lit '' top: 0'']) @ lit '' '') [] [] =
        Inr ([] @ map declaration_of
                    ([lit ''color'', lit '' top: 0''] @ (if trim (lit '' '') = [] then [] else [lit '' ''])),
             [] @ map AssertionFailed
                    (filter (\<lambda>l. length (split_str colon l) \<noteq> 2)
                       ([lit ''color'', lit '' top: 0''] @
                        (if trim (lit '' '') = [] then [] else [lit '' '']))))"
    by blast
  then show ?thesis
    by (simp add: blank pieces del: parse.simps)
qed

text \<open>
  C3 as the specification words it fails: \<open>color\<close> (one piece) is returned with a logged
  assertion failure, and \<open>color:\<close> (an empty value) is returned without any diagnostic.
\<close>

theorem assertion_does_not_abort_counterexample:
  "parse 1 (lit ''color'') [] [] = Inr ([Simple (lit ''color'') []], [AssertionFailed (lit ''color'')]) \<and>
   parse 1 (lit ''color:'') [] [] = Inr ([Simple (lit ''color'') [[]]], [])"
  by (simp add: lit_def trim_def is_whitespace_def search_def semicolon_def brace_open_def colon_def
      console_assert_def Let_def)

text \<open>
  C4: \<open>parse\<close> splits a declaration segment at every colon, not at the first one only, and
  trims every piece. The text before the first colon is the property; the text after it
  is split again at each of its own colons (the pieces have no colon, and joined with
  colons they give that text back), so a segment with exactly one colon is parsed as the
  pair of its two trimmed sides, and a segment whose value has a colon as a tuple of three
  or more pieces, for which the assertion fails. A segment without a colon is a tuple of
  one piece, and the assertion fails as well. This holds for the last segment and for a
  segment ended by a semicolon.
\<close>

theorem parse_splits_every_colon:
  assumes "colon \<notin> set k" and "semicolon \<notin> set (k @ v)" and "brace_open \<notin> set (k @ v)"
  shows "parse (Suc depth) (k @ colon # v) result con =
           Inr (result @ [Simple (trim k) (map trim (split_str colon v))],
                if colon \<in> set v then con @ [AssertionFailed (k @ colon # v)] else con) \<and>
         parse (Suc depth) (k @ colon # v @ semicolon # rest) result con =
           parse depth rest (result @ [Simple (trim k) (map trim (split_str colon v))])
             (if colon \<in> set v then con @ [AssertionFailed (k @ colon # v)] else con) \<and>
         join [colon] (split_str colon v) = v \<and>
         (\<forall>p\<in>set (split_str colon v). colon \<notin> set p) \<and>
         length (split_str colon v) = Suc (count_list v colon) \<and>
         (colon \<notin> set v \<longrightarrow> split_str colon v = [v]) \<and>
         (colon \<in> set v \<longrightarrow> 2 \<le> length (split_str colon v)) \<and>
         (colon \<notin> set line \<and> semicolon \<notin> set line \<and> brace_open \<notin> set line \<longrightarrow>
            (trim line \<noteq> [] \<longrightarrow>
               parse (Suc depth) line result con =
               Inr (result @ [Simple (trim line) []], con @ [AssertionFailed line])) \<and>
            parse (Suc depth) (line @ semicolon # rest) result con =
              parse depth rest (result @ [Simple (trim line) []]) (con @ [AssertionFailed line]))"
proof -
  have none: "(trim line \<noteq> [] \<longrightarrow>
               parse (Suc depth) line result con =
               Inr (result @ [Simple (trim line) []], con @ [AssertionFailed line])) \<and>
            parse (Suc depth) (line @ semicolon # rest) result con =
              parse depth rest (result @ [Simple (trim line) []]) (con @ [AssertionFailed line])"
    if "colon \<notin> set line \<and> semicolon \<notin> set line \<and> brace_open \<notin> set line"
    using that
    by (simp add: parse_last_declaration parse_terminated_declaration declaration_of_def
        split_str_no_sep console_assert_def del: parse.simps)
  have t: "trim (k @ colon # v) \<noteq> []"
    by (rule trim_not_blank [of colon]) simp_all
  have line: "semicolon \<notin> set (k @ colon # v)" "brace_open \<notin> set (k @ colon # v)"
    using assms by auto
  have a: "console_assert (length (split_str colon (k @ colon # v)) = 2) (k @ colon # v) con =
           (if colon \<in> set v then con @ [AssertionFailed (k @ colon # v)] else con)"
    by (simp add: console_assert_def two_pieces [OF assms(1)])
  have "parse (Suc depth) (k @ colon # v) result con =
           Inr (result @ [Simple (trim k) (map trim (split_str colon v))],
                if colon \<in> set v then con @ [AssertionFailed (k @ colon # v)] else con)"
    unfolding parse_last_declaration [OF t line] a declaration_of_property [OF assms(1)] ..
  moreover have "parse (Suc depth) ((k @ colon # v) @ semicolon # rest) result con =
           parse depth rest (result @ [Simple (trim k) (map trim (split_str colon v))])
             (if colon \<in> set v then con @ [AssertionFailed (k @ colon # v)] else con)"
    unfolding parse_terminated_declaration [OF line] a declaration_of_property [OF assms(1)] ..
  moreover have "2 \<le> length (split_str colon v)" if "colon \<in> set v"
  proof -
    from that have "count_list v colon \<noteq> 0" by (simp add: count_list_0_iff)
    then show ?thesis by (simp add: length_split_str)
  qed
  ultimately show ?thesis
    using join_split_str [of colon v] split_str_pieces [of _ colon v] length_split_str [of colon v]
      split_str_no_sep [of colon v] none
    by (simp del: parse.simps)
qed

theorem parse_splits_every_colon_witness:
  "parse (Suc 0) (lit ''background'' @ colon # lit '' url(http://x)'') [] [] =
     Inr ([Simple (trim (lit ''background'')) (map trim (split_str colon (lit '' url(http://x)'')))],
          [AssertionFailed (lit ''background'' @ colon # lit '' url(http://x)'')]) \<and>
   2 \<le> length (split_str colon (lit '' url(http://x)''))"
proof -
  have "colon \<notin> set (lit ''background'')"
    "semicolon \<notin> set (lit ''background'' @ lit '' url(http://x)'')"
    "brace_open \<notin> set (lit ''background'' @ lit '' url(http://x)'')"
    by (simp_all add: lit_def colon_def semicolon_def brace_open_def)
  moreover have c: "colon \<in> set (lit '' url(http://x)'')"
    by (simp add: lit_def colon_def)
  ultimately show ?thesis
    using parse_splits_every_colon [of "lit ''background''" "lit '' url(http://x)''" 0 "[]" "[]"]
    unfolding append_Nil if_P [OF c] by blast
qed

text \<open>
  C4 as the specification words it fails: the value of \<open>background: url(http://x)\<close> is
  split at its own colon, the tuple has three pieces, and the assertion fails.
\<close>

theorem colon_in_value_counterexample:
  "parse 1 (lit ''background: url(http://x)'') [] [] =
   Inr ([Simple (lit ''background'') [lit ''url(http'', lit ''//x)'']],
        [AssertionFailed (lit ''background: url(http://x)'')])"
  by (simp add: lit_def trim_def is_whitespace_def search_def semicolon_def brace_open_def colon_def
      console_assert_def Let_def)

lemma first_separator:
  assumes "semicolon \<in> set str \<or> brace_open \<in> set str"
  obtains l x r where "str = l @ x # r" "semicolon \<notin> set l" "brace_open \<notin> set l"
    "x = semicolon \<or> x = brace_open"
proof -
  from assms have "\<exists>x\<in>set str. x = semicolon \<or> x = brace_open" by blast
  from split_list_first_prop [OF this] that show thesis by blast
qed

lemma parse_error_is_stack: "parse depth str res con = Inl e \<Longrightarrow> e = StackExhausted"
proof (induction depth arbitrary: str res con)
  case 0
  then show ?case by simp
next
  case (Suc depth)
  show ?case
  proof (cases "trim str = []")
    case True
    with Suc.prems show ?thesis by (simp add: parse_blank)
  next
    case False
    show ?thesis
    proof (cases "semicolon \<in> set str \<or> brace_open \<in> set str")
      case False
      with \<open>trim str \<noteq> []\<close> Suc.prems show ?thesis
        by (simp add: parse_last_declaration del: parse.simps)
    next
      case True
      then obtain l x r where str: "str = l @ x # r" and l: "semicolon \<notin> set l" "brace_open \<notin> set l"
        and x: "x = semicolon \<or> x = brace_open"
        by (rule first_separator)
      from x show ?thesis
      proof
        assume "x = semicolon"
        with Suc.prems Suc.IH l show ?thesis
          unfolding str by (simp add: parse_terminated_declaration del: parse.simps)
      next
        assume "x = brace_open"
        with Suc.prems Suc.IH l show ?thesis
          unfolding str by (auto simp add: parse_rule simp del: parse.simps split: sum.splits prod.splits)
      qed
    qed
  qed
qed

lemma indexOf_none: "c \<notin> set str \<Longrightarrow> indexOf str c = - 1"
  unfolding indexOf_def by (rule index_where_none) auto

lemma indexOf_first: "c \<notin> set p \<Longrightarrow> indexOf (p @ c # q) c = int (length p)"
  unfolding indexOf_def by (rule index_where_first) auto

lemma remaining_keeps_open_rule:
  assumes "brace_close \<notin> set b"
  shows "\<exists>a'. slice_from (a @ brace_open # b) (indexOf (a @ brace_open # b) brace_close + 1) =
               a' @ brace_open # b"
proof (cases "brace_close \<in> set a")
  case False
  with assms have "indexOf (a @ brace_open # b) brace_close = - 1"
    by (simp add: indexOf_none)
  then show ?thesis by (simp add: slice_from_zero)
next
  case True
  then obtain p q where a: "a = p @ brace_close # q" and p: "brace_close \<notin> set p"
    by (meson split_list_first)
  have "indexOf ((p @ brace_close # q) @ brace_open # b) brace_close = int (length p)"
    using indexOf_first [OF p, of "q @ brace_open # b"] by simp
  then show ?thesis
    unfolding a by (simp add: slice_from_drop_Suc)
qed

lemma parse_unclosed:
  assumes "brace_close \<notin> set b"
  shows "parse depth (a @ brace_open # b) result con = Inl StackExhausted"
  using assms
proof (induction depth arbitrary: a result con)
  case 0
  show ?case by simp
next
  case (Suc depth)
  let ?str = "a @ brace_open # b"
  have "semicolon \<in> set ?str \<or> brace_open \<in> set ?str" by simp
  then obtain l x r where str: "?str = l @ x # r" and l: "semicolon \<notin> set l" "brace_open \<notin> set l"
    and x: "x = semicolon \<or> x = brace_open"
    by (rule first_separator)
  from x show ?case
  proof
    assume semi: "x = semicolon"
    from str l semi obtain a' where "r = a' @ brace_open # b"
      by (auto simp: append_eq_append_conv2 Cons_eq_append_conv append_eq_Cons_conv)
    with Suc.IH [OF Suc.prems, of a'] l semi show ?thesis
      unfolding str by (simp add: parse_terminated_declaration del: parse.simps)
  next
    assume x: "x = brace_open"
    from remaining_keeps_open_rule [OF Suc.prems, of a] obtain a' where
      rem: "slice_from ?str (indexOf ?str brace_close + 1) = a' @ brace_open # b"
      by blast
    have "parse (Suc depth) (l @ brace_open # r) result con = Inl StackExhausted"
      unfolding parse_rule [OF l]
      using rem [unfolded str x] Suc.IH [OF Suc.prems, of a'] parse_error_is_stack
      by (auto split: sum.splits prod.splits)
    then show ?thesis unfolding str x .
  qed
qed

text \<open>
  C5: a text with a \<open>{\<close> after which no \<open>}\<close> follows is never parsed to a result. The
  search for the closing brace fails, the text after it is the whole text again, and
  \<open>parse\<close> calls itself on it without end: whatever the stack left, it is exhausted, and
  the error leaves \<open>parse\<close> and the hook that called it.
\<close>

theorem parse_unclosed_rule:
  assumes "brace_close \<notin> set b"
  shows "parse depth (a @ brace_open # b) result con = Inl StackExhausted \<and>
         (style_prop vnode = Str (a @ brace_open # b) \<longrightarrow> hook depth vnode st = Inl StackExhausted)"
  by (simp add: parse_unclosed [OF assms] hook_def del: parse.simps)

theorem parse_unclosed_rule_witness:
  "parse 1000 (lit ''a '' @ brace_open # lit '' b: c'') [] [] = Inl StackExhausted"
proof -
  have "brace_close \<notin> set (lit '' b: c'')" by (simp add: lit_def brace_close_def)
  from parse_unclosed_rule [OF this] show ?thesis by blast
qed

section \<open>The placeholder in the serialised stylesheet\<close>

lemma sublist_separator:
  assumes "sublist p (a @ c # b)" and "c \<notin> set p"
  shows "sublist p a \<or> sublist p b"
proof -
  from assms(1) consider "sublist p a" | "sublist p (c # b)"
    | xs1 xs2 where "p = xs1 @ xs2" "suffix xs1 a" "prefix xs2 (c # b)"
    unfolding sublist_append by blast
  then show ?thesis
  proof cases
    case 1
    then show ?thesis by simp
  next
    case 2
    then have "prefix p (c # b) \<or> sublist p b" by (simp add: sublist_Cons_right)
    with assms(2) show ?thesis by (cases p) auto
  next
    case 3
    with assms(2) show ?thesis by (cases xs2) auto
  qed
qed

lemma placeholder_nonempty: "placeholder \<noteq> []"
  by (simp add: placeholder_def lit_def)

lemma length_placeholder: "length placeholder = 48"
  by (simp add: placeholder_def lit_def)

lemma ph_free_Nil [simp]: "ph_free []"
  by (simp add: ph_free_def placeholder_nonempty)

lemma ph_free_sublist:
  assumes "sublist s' s" and "ph_free s"
  shows "ph_free s'"
proof -
  have "sublist placeholder s" if "sublist placeholder s'"
    by (rule sublist_order.order_trans [OF that assms(1)])
  with assms(2) show ?thesis unfolding ph_free_def by blast
qed

lemma ph_free_separator:
  "c \<notin> set placeholder \<Longrightarrow> ph_free (a @ c # b) \<longleftrightarrow> ph_free a \<and> ph_free b"
proof -
  assume c: "c \<notin> set placeholder"
  have a: "sublist a (a @ c # b)" by simp
  have "sublist b ((a @ [c]) @ b)" by (rule sublist_append_leftI)
  then have b: "sublist b (a @ c # b)" by simp
  show ?thesis
  proof
    assume "ph_free (a @ c # b)"
    with a b show "ph_free a \<and> ph_free b" by (blast intro: ph_free_sublist)
  next
    assume "ph_free a \<and> ph_free b"
    then show "ph_free (a @ c # b)"
      unfolding ph_free_def using sublist_separator [OF _ c, of a b] by blast
  qed
qed

lemma ph_free_Cons: "c \<notin> set placeholder \<Longrightarrow> ph_free (c # b) \<longleftrightarrow> ph_free b"
  using ph_free_separator [of c "[]" b] by simp

lemma ph_free_short: "length s < 48 \<Longrightarrow> ph_free s"
  unfolding ph_free_def using sublist_length_le [of placeholder s] length_placeholder by auto

lemma ph_free_separators:
  assumes "sep \<noteq> []" and "set sep \<inter> set placeholder = {}"
  shows "ph_free (a @ sep @ b) \<longleftrightarrow> ph_free a \<and> ph_free b"
proof -
  have pre: "ph_free (s @ b) \<longleftrightarrow> ph_free b" if "set s \<inter> set placeholder = {}" for s
    using that by (induction s) (simp_all add: ph_free_Cons)
  from assms obtain c s where sep: "sep = c # s" by (cases sep) auto
  with assms(2) have "c \<notin> set placeholder" "set s \<inter> set placeholder = {}" by auto
  then show ?thesis
    unfolding sep using ph_free_separator [of c a "s @ b"] pre [of s] by simp
qed

lemma ph_free_join:
  "sep \<noteq> [] \<Longrightarrow> set sep \<inter> set placeholder = {} \<Longrightarrow> \<forall>x\<in>set xs. ph_free x \<Longrightarrow>
   ph_free (join sep xs)"
  by (induction sep xs rule: join.induct) (simp_all add: ph_free_separators)

lemma separators:
  "c \<in> {0x20, 0x7B, 0x7D, 0x3A, 0x3B, 0x2C, 0x2E, 0x5F, 0x0A, 0x40} \<Longrightarrow> c \<notin> set placeholder"
  by (auto simp: placeholder_def lit_def)

lemma sublist_trim: "sublist (trim s) s"
proof -
  have "prefix (rev (dropWhile P (rev xs))) xs" for P and xs :: jsstring
    using suffix_dropWhile [of P "rev xs"] by (simp add: suffix_to_prefix)
  then have "sublist (trim s) (dropWhile is_whitespace s)"
    unfolding trim_def by (rule prefix_imp_sublist)
  then show ?thesis
    using sublist_dropWhile sublist_order.order_trans by blast
qed

lemma sublist_split_str: "p \<in> set (split_str c s) \<Longrightarrow> sublist p s"
proof (induction s arbitrary: p)
  case Nil
  then show ?case by simp
next
  case (Cons x s)
  show ?case
  proof (cases "x = c")
    case True
    with Cons show ?thesis by (auto simp: sublist_Cons_right)
  next
    case False
    obtain q qs where q: "split_str c s = q # qs"
      using split_str_nonempty by (cases "split_str c s") auto
    with False Cons.prems have "p = x # q \<or> p \<in> set qs" by simp
    then show ?thesis
    proof
      assume "p = x # q"
      moreover have "prefix q s" using q
        by (induction s arbitrary: q qs) (auto split: if_splits list.splits)
      ultimately show ?thesis by (simp add: prefix_imp_sublist)
    next
      assume "p \<in> set qs"
      with q Cons.IH [of p] show ?thesis by (simp add: sublist_Cons_right)
    qed
  qed
qed

lemma ph_free_declaration: "ph_free line \<Longrightarrow> ph_free_node (declaration_of line)"
proof -
  assume c: "ph_free line"
  have "ph_free (trim p)" if "p \<in> set (split_str colon line)" for p
    using ph_free_sublist [OF sublist_trim] ph_free_sublist [OF sublist_split_str [OF that] c]
    by blast
  then have "\<forall>p\<in>set (map trim (split_str colon line)). ph_free p"
    by auto
  then show ?thesis
    unfolding declaration_of_def
    by (cases "split_str colon line") (simp_all add: list_all_iff)
qed

lemma ph_free_slice: "ph_free str \<Longrightarrow> ph_free (slice_str str a b)"
  using ph_free_sublist sublist_slice_str by blast

lemma ph_free_slice_from: "ph_free str \<Longrightarrow> ph_free (slice_from str a)"
  by (simp add: slice_from_def ph_free_slice)

lemma ph_free_parts:
  assumes "ph_free (l @ x # r)"
  shows "ph_free l" and "ph_free r"
proof -
  show "ph_free l" by (rule ph_free_sublist [OF _ assms]) simp
  have "sublist r ((l @ [x]) @ r)" by (rule sublist_append_leftI)
  then show "ph_free r" using ph_free_sublist [OF _ assms] by simp
qed

lemma parse_ph_free:
  "ph_free str \<Longrightarrow> list_all ph_free_node res \<Longrightarrow> parse depth str res con = Inr (res', con') \<Longrightarrow>
   list_all ph_free_node res'"
proof (induction depth arbitrary: str res con res' con')
  case 0
  then show ?case by simp
next
  case (Suc depth)
  show ?case
  proof (cases "trim str = []")
    case True
    with Suc.prems show ?thesis by (simp add: parse_blank)
  next
    case False
    show ?thesis
    proof (cases "semicolon \<in> set str \<or> brace_open \<in> set str")
      case False
      with \<open>trim str \<noteq> []\<close> Suc.prems show ?thesis
        by (auto simp add: parse_last_declaration ph_free_declaration simp del: parse.simps)
    next
      case True
      then obtain l x r where str: "str = l @ x # r" and l: "semicolon \<notin> set l" "brace_open \<notin> set l"
        and x: "x = semicolon \<or> x = brace_open"
        by (rule first_separator)
      from Suc.prems(1) have cl: "ph_free l" and cr: "ph_free r"
        unfolding str by (rule ph_free_parts)+
      from x show ?thesis
      proof
        assume "x = semicolon"
        with Suc.prems(3) l have "parse depth r (res @ [declaration_of l])
            (console_assert (length (split_str colon l) = 2) l con) = Inr (res', con')"
          unfolding str by (simp add: parse_terminated_declaration del: parse.simps)
        moreover have "list_all ph_free_node (res @ [declaration_of l])"
          using Suc.prems(2) cl by (simp add: ph_free_declaration)
        ultimately show ?thesis using Suc.IH [OF cr] by blast
      next
        assume x: "x = brace_open"
        let ?body = "slice_str str (int (length l) + 1) (indexOf str brace_close)"
        let ?rest = "slice_from str (indexOf str brace_close + 1)"
        from Suc.prems(3) l obtain ps c1 where
          nested: "parse depth ?body [] con = Inr (ps, c1)"
          and rest: "parse depth ?rest (res @ [Nested (trim l) ps]) c1 = Inr (res', con')"
          unfolding str x by (auto simp add: parse_rule simp del: parse.simps split: sum.splits prod.splits)
        have "list_all ph_free_node ps"
          using Suc.IH [OF ph_free_slice [OF Suc.prems(1)] _ nested] by simp
        moreover have "ph_free (trim l)" using cl ph_free_sublist sublist_trim by blast
        ultimately have "list_all ph_free_node (res @ [Nested (trim l) ps])"
          using Suc.prems(2) by simp
        from Suc.IH [OF ph_free_slice_from [OF Suc.prems(1)] this rest] show ?thesis .
      qed
    qed
  qed
qed

lemma comma_colon_free:
  "set (lit '','') \<inter> set placeholder = {}" "set (lit '': '') \<inter> set placeholder = {}"
  "set (lit ''; '') \<inter> set placeholder = {}" "set (lit '', '') \<inter> set placeholder = {}"
  "set (lit [CHR 0x0A]) \<inter> set placeholder = {}"
  "lit '','' \<noteq> []" "lit '': '' \<noteq> []" "lit ''; '' \<noteq> []" "lit '', '' \<noteq> []" "lit [CHR 0x0A] \<noteq> []"
  by (simp_all add: lit_def placeholder_def)

lemma ph_free_join_lit:
  "\<forall>x\<in>set xs. ph_free x \<Longrightarrow> ph_free (join (lit '','') xs)"
  "\<forall>x\<in>set xs. ph_free x \<Longrightarrow> ph_free (join (lit '': '') xs)"
  "\<forall>x\<in>set xs. ph_free x \<Longrightarrow> ph_free (join (lit ''; '') xs)"
  "\<forall>x\<in>set xs. ph_free x \<Longrightarrow> ph_free (join (lit '', '') xs)"
  "\<forall>x\<in>set xs. ph_free x \<Longrightarrow> ph_free (join (lit [CHR 0x0A]) xs)"
  by (rule ph_free_join; simp add: comma_colon_free)+

lemma ph_free_array_toString: "ph_free_node n \<Longrightarrow> ph_free (array_toString n)"
proof (induction n)
  case (Simple k vs)
  then have "\<forall>x\<in>set (k # vs). ph_free x"
    by (simp add: list_all_iff)
  then show ?case
    unfolding array_toString.simps by (rule ph_free_join_lit)
next
  case (Nested r ps)
  then have "\<forall>x\<in>set (map array_toString ps). ph_free x"
    by (auto simp: list_all_iff)
  then have "ph_free (join (lit '','') (map array_toString ps))"
    by (rule ph_free_join_lit)
  with Nested.prems have "\<forall>x\<in>set [r, join (lit '','') (map array_toString ps)]. ph_free x"
    by (simp add:)
  then show ?case
    unfolding array_toString.simps by (rule ph_free_join_lit)
qed

lemma ph_free_tuple_join: "ph_free_node n \<Longrightarrow> ph_free (tuple_join n)"
proof (cases n)
  case (Simple k vs)
  assume "ph_free_node n"
  with Simple have "\<forall>x\<in>set (k # vs). ph_free x"
    by (simp add: list_all_iff)
  then show ?thesis
    unfolding Simple tuple_join.simps by (rule ph_free_join_lit)
next
  case (Nested r ps)
  assume c: "ph_free_node n"
  with Nested have "\<forall>x\<in>set (map array_toString ps). ph_free x"
    by (auto simp: list_all_iff ph_free_array_toString)
  then have "ph_free (join (lit '','') (map array_toString ps))"
    by (rule ph_free_join_lit)
  with c Nested have "\<forall>x\<in>set [r, join (lit '','') (map array_toString ps)]. ph_free x"
    by (simp add:)
  then show ?thesis
    unfolding Nested tuple_join.simps by (rule ph_free_join_lit)
qed

lemma ph_free_stringifyProperties:
  "list_all ph_free_node ps \<Longrightarrow> ph_free (stringifyProperties ps)"
  unfolding stringifyProperties_def
  by (rule ph_free_join_lit) (simp add: list_all_iff ph_free_tuple_join)

lemma sep_chars [simp]:
  "(0x20 :: 16 word) \<notin> set placeholder" "(0x7B :: 16 word) \<notin> set placeholder"
  "(0x7D :: 16 word) \<notin> set placeholder" "(0x3A :: 16 word) \<notin> set placeholder"
  "(0x2E :: 16 word) \<notin> set placeholder" "(0x5F :: 16 word) \<notin> set placeholder"
  "(0x68 :: 16 word) \<notin> set placeholder" "(0x77 :: 16 word) \<notin> set placeholder"
  by (simp_all add: placeholder_def lit_def)

lemma dollar_not_symbol: "dollar \<notin> set symbols"
  by (simp add: symbols_def lit_def dollar_def)

lemma good_class_selector:
  assumes "ph_free frag" and "\<not> has_pattern frag" and "frag = [] \<or> hd frag = 0x3A"
  shows "good_selector (lit ''.'' @ (lit ''hw_'' @ hash d) @ frag)"
proof -
  have h: "ph_free (hash d)" by (rule ph_free_short) (simp add: length_hash)
  have "ph_free (hash d @ frag)"
  proof (cases frag)
    case Nil
    with h show ?thesis by simp
  next
    case (Cons c f)
    with assms(3) have c: "c = 0x3A" by simp
    have "ph_free f" using assms(1) ph_free_parts(2) [of "[]" c f] Cons by simp
    with h show ?thesis unfolding Cons c by (simp add: ph_free_separator)
  qed
  then have "ph_free (lit ''.'' @ (lit ''hw_'' @ hash d) @ frag)"
    by (simp add: lit_def ph_free_Cons)
  moreover have "\<not> has_pattern ((lit ''.'' @ lit ''hw_'' @ hash d) @ frag)"
  proof -
    have "dollar \<notin> set (lit ''.'' @ lit ''hw_'' @ hash d)"
      using set_hash [of d] dollar_not_symbol by (auto simp: lit_def dollar_def)
    from has_pattern_after [OF this, of frag] assms(2) show ?thesis by blast
  qed
  ultimately show ?thesis by (simp add: good_selector_def)
qed

lemma good_simpleRule:
  assumes "list_all ph_free_node ps"
  shows "list_all good_rule (rules (simpleRule ps))"
proof -
  have "list_all ph_free_node (filter isNormalProperty ps)"
    using assms by (simp add: list_all_iff)
  then have sp: "ph_free (stringifyProperties (filter isNormalProperty ps))"
    by (rule ph_free_stringifyProperties)
  have "good_selector (lit ''.'' @ (lit ''hw_'' @ hash d) @ [])" for d
    by (rule good_class_selector) simp_all
  with sp show ?thesis
    by (auto simp: simpleRule_def Let_def good_rule_def good_body_def)
qed

lemma good_pseudoRule:
  assumes "ph_free_node t" and "isPseudoClassRule t" and "\<not> has_pattern (tuple0 t)"
  shows "list_all good_rule (rules (pseudoRule t))"
proof -
  have "list_all ph_free_node (tuple1 t)" using assms(1) by (cases t) simp_all
  then have sp: "ph_free (stringifyProperties (tuple1 t))"
    by (rule ph_free_stringifyProperties)
  have c: "ph_free (tuple0 t)" using assms(1) by (cases t) simp_all
  have "tuple0 t = [] \<or> hd (tuple0 t) = 0x3A"
    using assms(2) by (cases "tuple0 t") (simp_all add: isPseudoClassRule_def startsWith_def lit_def)
  then have "good_selector (lit ''.'' @ (lit ''hw_'' @ hash d) @ tuple0 t)" for d
    by (rule good_class_selector [OF c assms(3)])
  with sp show ?thesis
    by (auto simp: pseudoRule_def Let_def good_rule_def good_body_def)
qed

lemma good_atRule:
  assumes "ph_free_node t"
  shows "list_all good_rule (rules (atRule t))"
proof -
  have "list_all ph_free_node (tuple1 t)" using assms(1) by (cases t) simp_all
  then have sp: "ph_free (stringifyProperties (tuple1 t))"
    by (rule ph_free_stringifyProperties)
  have c: "ph_free (tuple0 t)" using assms(1) by (cases t) simp_all
  have "good_selector (lit ''.'' @ (lit ''hw_'' @ hash d) @ [])" for d
    by (rule good_class_selector) simp_all
  with sp c show ?thesis
    by (auto simp: atRule_def Let_def good_rule_def good_body_def)
qed

lemma good_concat:
  "\<forall>x\<in>set xs. list_all good_rule (rules (f x)) \<Longrightarrow>
   list_all good_rule (concat (map rules (map f xs)))"
  by (induction xs) auto

lemma good_compile:
  assumes "list_all ph_free_node ps" and "\<forall>f\<in>set (pseudo_fragments ps). \<not> has_pattern f"
  shows "list_all good_rule (rules (compile ps))"
proof -
  have s: "list_all ph_free_node (filter isSimple ps)"
    using assms(1) by (simp add: list_all_iff)
  have p: "\<forall>t\<in>set (filter isPseudoClassRule (filter isNested ps)). list_all good_rule (rules (pseudoRule t))"
  proof
    fix t assume t: "t \<in> set (filter isPseudoClassRule (filter isNested ps))"
    with assms(1) have "ph_free_node t" "isPseudoClassRule t" by (simp_all add: list_all_iff)
    moreover from t assms(2) have "\<not> has_pattern (tuple0 t)"
      unfolding pseudo_fragments_def by (metis imageI list.set_map)
    ultimately show "list_all good_rule (rules (pseudoRule t))" by (rule good_pseudoRule)
  qed
  have a: "\<forall>t\<in>set (filter isAtRule (filter isNested ps)). list_all good_rule (rules (atRule t))"
  proof
    fix t assume "t \<in> set (filter isAtRule (filter isNested ps))"
    with assms(1) have "ph_free_node t" by (simp add: list_all_iff)
    then show "list_all good_rule (rules (atRule t))" by (rule good_atRule)
  qed
  show ?thesis
    unfolding compile_def Let_def foldl_accumulate compiledCSS.simps map_append concat_append list_all_append
    using good_simpleRule [OF s] good_concat [OF p] good_concat [OF a] by blast
qed

lemma good_addRule:
  "good_sheet sheet \<Longrightarrow> good_body body \<Longrightarrow> good_selector sel \<Longrightarrow>
   good_sheet (addRule sheet body sel)"
  by (induction sheet body sel rule: addRule.induct) (auto simp: good_sheet_def set_add_def)

lemma good_addRules:
  "good_sheet sheet \<Longrightarrow> list_all good_rule rs \<Longrightarrow> good_sheet (addRules sheet rs)"
  unfolding addRules_def
  by (induction rs arbitrary: sheet) (simp_all add: good_addRule good_rule_def)

lemma find_first_guarded:
  assumes "ph \<noteq> []"
  shows "\<not> sublist ph pre \<Longrightarrow> pre = [] \<or> last pre \<notin> set ph \<Longrightarrow>
         find_first ph (pre @ ph @ post) = Some (length pre)"
proof (induction pre)
  case Nil
  with assms show ?case by (cases ph) simp_all
next
  case (Cons y pre)
  have "\<not> prefix ph ((y # pre) @ ph @ post)"
  proof
    assume "prefix ph ((y # pre) @ ph @ post)"
    then consider "prefix ph (y # pre)" | us where "ph = (y # pre) @ us"
      unfolding prefix_append by blast
    then show False
    proof cases
      case 1
      with Cons.prems(1) show False by (simp add: prefix_imp_sublist)
    next
      case 2
      then have "last (y # pre) \<in> set ph" by (metis last_in_set in_set_conv_decomp list.distinct(1) set_append UnI1)
      with Cons.prems(2) show False by simp
    qed
  qed
  moreover have "\<not> sublist ph pre"
    using Cons.prems(1) by (simp add: sublist_Cons_right)
  moreover have "pre = [] \<or> last pre \<notin> set ph"
    using Cons.prems(2) by auto
  ultimately show ?case
    using Cons.IH by simp
qed

lemma replace_guarded:
  assumes "ph_free pre" and "pre = [] \<or> last pre \<notin> set placeholder" and "\<not> has_pattern j"
  shows "replace (pre @ placeholder @ post) placeholder j = pre @ j @ post"
proof -
  have "find_first placeholder (pre @ placeholder @ post) = Some (length pre)"
    using assms(1,2) by (intro find_first_guarded placeholder_nonempty) (simp_all add: ph_free_def)
  then show ?thesis
    by (simp add: replace_def Let_def getSubstitution_no_pattern [OF assms(3)])
qed

lemma ph_free_replace:
  assumes "good_body body" and "ph_free j" and "\<not> has_pattern j"
  shows "ph_free (replace body placeholder j)"
proof -
  from assms(1) obtain q sp where q: "ph_free q" and sp: "ph_free sp"
    and body: "body = placeholder @ lit '' { '' @ sp @ lit '' }'' \<or>
               body = q @ lit '' { '' @ placeholder @ lit '' { '' @ sp @ lit '' } }''"
    unfolding good_body_def by blast
  from body show ?thesis
  proof
    assume b: "body = placeholder @ lit '' { '' @ sp @ lit '' }''"
    have "replace ([] @ placeholder @ (lit '' { '' @ sp @ lit '' }'')) placeholder j =
          [] @ j @ (lit '' { '' @ sp @ lit '' }'')"
      by (rule replace_guarded) (simp_all add: assms(3))
    then have "replace body placeholder j = j @ lit '' { '' @ sp @ lit '' }''"
      unfolding b by simp
    moreover have "ph_free (j @ lit '' { '' @ sp @ lit '' }'')"
      using assms(2) sp by (simp add: lit_def ph_free_separator ph_free_Cons)
    ultimately show ?thesis by simp
  next
    assume b: "body = q @ lit '' { '' @ placeholder @ lit '' { '' @ sp @ lit '' } }''"
    have pre: "ph_free (q @ lit '' { '')"
      using q by (simp add: lit_def ph_free_separator ph_free_Cons)
    have "replace ((q @ lit '' { '') @ placeholder @ (lit '' { '' @ sp @ lit '' } }'')) placeholder j =
          (q @ lit '' { '') @ j @ (lit '' { '' @ sp @ lit '' } }'')"
      by (rule replace_guarded [OF pre _ assms(3)]) (simp add: lit_def)
    then have "replace body placeholder j = q @ lit '' { '' @ j @ lit '' { '' @ sp @ lit '' } }''"
      unfolding b by simp
    moreover have "ph_free (q @ lit '' { '' @ j @ lit '' { '' @ sp @ lit '' } }'')"
      using assms(2) sp q by (simp add: lit_def ph_free_separator ph_free_Cons)
    ultimately show ?thesis by simp
  qed
qed

lemma ph_free_stringifyStylesheet:
  assumes "good_sheet sheet"
  shows "ph_free (stringifyStylesheet sheet)"
  unfolding stringifyStylesheet_def Let_def
proof (rule ph_free_join_lit, rule ballI)
  fix x
  assume "x \<in> set (map (\<lambda>(body, selectors). replace body placeholder (join (lit '', '') selectors)) sheet)"
  then obtain body sels where e: "(body, sels) \<in> set sheet"
    and x: "x = replace body placeholder (join (lit '', '') sels)"
    by auto
  from assms e have b: "good_body body" and s: "\<forall>s\<in>set sels. good_selector s"
    unfolding good_sheet_def by auto
  from s have "ph_free (join (lit '', '') sels)"
    by (intro ph_free_join_lit) (simp add: good_selector_def)
  moreover from s have "\<not> has_pattern (join (lit '', '') sels)"
    by (intro has_pattern_join) (simp add: good_selector_def)
  ultimately show "ph_free x"
    unfolding x by (rule ph_free_replace [OF b])
qed

lemma good_hook:
  assumes "good_sheet (stylesheet st)"
    and "\<forall>s. style_prop v = Str s \<longrightarrow>
           ph_free s \<and>
           (\<forall>con parsed con'. parse depth s [] con = Inr (parsed, con') \<longrightarrow>
              (\<forall>f\<in>set (pseudo_fragments parsed). \<not> has_pattern f))"
    and "hook depth v st = Inr (v', st')"
  shows "good_sheet (stylesheet st')"
proof (cases "style_prop v")
  case Undefined
  with assms show ?thesis by (simp add: hook_def)
next
  case (NonString ty)
  with assms show ?thesis by (auto simp: hook_def)
next
  case (Str s)
  with assms(3) obtain parsed c1 where p: "parse depth s [] (console st) = Inr (parsed, c1)"
    and st': "stylesheet st' = addRules (stylesheet st) (rules (compile parsed))"
    by (auto simp: hook_def Let_def split: sum.splits prod.splits)
  from assms(2) Str have "ph_free s" by simp
  from parse_ph_free [OF this _ p] have nodes: "list_all ph_free_node parsed" by simp
  from assms(2) Str p have "\<forall>f\<in>set (pseudo_fragments parsed). \<not> has_pattern f" by blast
  with nodes have "list_all good_rule (rules (compile parsed))" by (rule good_compile)
  with assms(1) show ?thesis unfolding st' by (rule good_addRules)
qed

lemma good_run_hooks:
  "good_sheet (stylesheet st) \<Longrightarrow>
   \<forall>v\<in>set vnodes. \<forall>s. style_prop v = Str s \<longrightarrow>
      ph_free s \<and>
      (\<forall>con parsed con'. parse depth s [] con = Inr (parsed, con') \<longrightarrow>
         (\<forall>f\<in>set (pseudo_fragments parsed). \<not> has_pattern f)) \<Longrightarrow>
   run_hooks depth vnodes st = Inr (vs', st') \<Longrightarrow> good_sheet (stylesheet st')"
proof (induction vnodes arbitrary: st vs' st')
  case Nil
  then show ?case by simp
next
  case (Cons v vnodes)
  from Cons.prems(3) obtain v1 st1 vs1 where h: "hook depth v st = Inr (v1, st1)"
    and r: "run_hooks depth vnodes st1 = Inr (vs1, st')"
    by (auto split: sum.splits prod.splits)
  from Cons.prems(2) have "\<forall>s. style_prop v = Str s \<longrightarrow>
      ph_free s \<and>
      (\<forall>con parsed con'. parse depth s [] con = Inr (parsed, con') \<longrightarrow>
         (\<forall>f\<in>set (pseudo_fragments parsed). \<not> has_pattern f))" by simp
  from good_hook [OF Cons.prems(1) this h] have "good_sheet (stylesheet st1)" .
  from Cons.IH [OF this _ r] Cons.prems(2) show ?case by simp
qed

text \<open>
  C7: in a render pass that starts with an empty accumulator, when no style string contains
  the placeholder token and no pseudo-class fragment of a parsed style holds a replacement
  pattern (\<open>$$\<close>, \<open>$&\<close>, \<open>$`\<close>, \<open>$'\<close>), the placeholder does not occur in the
  serialised stylesheet: every rule body in the accumulator holds it once, and
  serialisation replaces it by the selectors. A dollar sign anywhere else, in a value, a
  custom property or an at-rule query, is allowed. The pass leaves the accumulator empty.
\<close>

theorem placeholder_never_serialized:
  assumes "stylesheet st = []"
    and "\<forall>v\<in>set vnodes. \<forall>s. style_prop v = Str s \<longrightarrow>
           \<not> sublist placeholder s \<and>
           (\<forall>con parsed con'. parse depth s [] con = Inr (parsed, con') \<longrightarrow>
              (\<forall>f\<in>set (pseudo_fragments parsed). \<not> has_pattern f))"
    and "render depth vnodes st = Inr (cssText, st')"
  shows "\<not> sublist placeholder cssText \<and> stylesheet st' = []"
proof -
  from assms(3) obtain vs1 st1 where r: "run_hooks depth vnodes st = Inr (vs1, st1)"
    and css: "cssText = stringifyStylesheet (stylesheet st1)" and c: "stylesheet st' = []"
    by (auto simp: render_def Let_def split: sum.splits prod.splits)
  have "good_sheet (stylesheet st)" by (simp add: assms(1) good_sheet_def)
  then have "good_sheet (stylesheet st1)"
    using assms(2) r unfolding ph_free_def [symmetric] by (rule good_run_hooks)
  then have "ph_free cssText" unfolding css by (rule ph_free_stringifyStylesheet)
  with c show ?thesis by (simp add: ph_free_def)
qed

lemmas eval_defs = lit_def trim_def is_whitespace_def search_def semicolon_def brace_open_def
  brace_close_def colon_def console_assert_def Let_def char_at_def slice_str_def slice_from_def
  indexOf_def

lemma parse_color_placeholder:
  "parse (Suc 0) (lit ''color: '' @ placeholder) [] [] = Inr ([Simple (lit ''color'') [placeholder]], [])"
  by (simp add: eval_defs placeholder_def)

lemma parse_hover_dollar:
  "parse (Suc (Suc 0)) (lit '':hover$& { color: red }'') [] [] = Inr (hover_dollar, [])"
  by (simp add: eval_defs hover_dollar_def)

lemma parse_price:
  "parse (Suc (Suc (Suc 0))) (lit ''--price: $&5; :hover { color: blue }'') [] con =
   Inr ([Simple (lit ''--price'') [lit ''$&5''],
         Nested (lit '':hover'') [Simple (lit ''color'') [lit ''blue'']]], con)"
  by (simp add: eval_defs)

lemma hash_color_placeholder:
  "hash (placeholder @ lit '' { color: '' @ placeholder @ lit '' }'') = lit ''dxv0x''"
  by (simp add: hash_eval)

text \<open>
  C7 as the specification words it fails in two ways. A style value that is the placeholder
  text stays in the output, since only the first occurrence in the rule body is replaced;
  and a pseudo-class fragment with \<open>$&\<close> makes the replacement insert the matched
  placeholder again.
\<close>

theorem placeholder_in_output_counterexample:
  "render (Suc 0) [node_with_style (lit ''color: '' @ placeholder)] empty_state =
     Inr (lit ''.hw_dxv0x { color: '' @ placeholder @ lit '' }'', empty_state) \<and>
   sublist placeholder (lit ''.hw_dxv0x { color: '' @ placeholder @ lit '' }'') \<and>
   render (Suc (Suc 0)) [node_with_style (lit '':hover$& { color: red }'')] empty_state =
     Inr (lit ''.hw_LW7Oq:hover'' @ placeholder @ lit '' { color: red }'', empty_state) \<and>
   sublist placeholder (lit ''.hw_LW7Oq:hover'' @ placeholder @ lit '' { color: red }'')"
proof -
  have c1: "rules (compile [Simple (lit ''color'') [placeholder]]) =
      [\<lparr> ruleBody = placeholder @ lit '' { color: '' @ placeholder @ lit '' }'',
         selector = lit ''.'' @ lit ''hw_'' @ lit ''dxv0x'' \<rparr>]"
  proof -
    have s: "\<forall>p\<in>set [Simple (lit ''color'') [placeholder]]. isSimple p" by (simp add: isSimple_def)
    have b: "placeholder @ lit '' { '' @
           stringifyProperties (filter isNormalProperty [Simple (lit ''color'') [placeholder]]) @ lit '' }'' =
           placeholder @ lit '' { color: '' @ placeholder @ lit '' }''"
      by (simp add: isNormalProperty_def isCustomProperty_def startsWith_def stringifyProperties_def lit_def)
    show ?thesis
      unfolding compile_simple [OF s]
      by (subst simpleRule_nonempty) (simp_all only: b hash_color_placeholder compiledCSS.simps, simp)
  qed
  have s1: "stringifyStylesheet [(placeholder @ lit '' { color: '' @ placeholder @ lit '' }'', [lit ''.'' @ lit ''hw_'' @ lit ''dxv0x''])] =
      lit ''.hw_dxv0x { color: '' @ placeholder @ lit '' }''"
  proof -
    have "replace ([] @ placeholder @ (lit '' { color: '' @ placeholder @ lit '' }'')) placeholder (lit ''.hw_dxv0x'') =
          [] @ lit ''.hw_dxv0x'' @ (lit '' { color: '' @ placeholder @ lit '' }'')"
      by (rule replace_guarded) (simp_all add: lit_def dollar_def)
    then show ?thesis by (simp add: stringifyStylesheet_def lit_def)
  qed
  have r1: "render (Suc 0) [node_with_style (lit ''color: '' @ placeholder)] empty_state =
     Inr (lit ''.hw_dxv0x { color: '' @ placeholder @ lit '' }'', empty_state)"
    unfolding render_def run_hooks.simps hook_def node_with_style_def empty_state_def
    by (simp add: parse_color_placeholder c1 addRules_def s1 Let_def del: parse.simps)
  have s2: "stringifyStylesheet [(placeholder @ lit '' { color: red }'', [lit ''.'' @ lit ''hw_'' @ lit ''LW7Oq'' @ lit '':hover$&''])] =
      lit ''.hw_LW7Oq:hover'' @ placeholder @ lit '' { color: red }''"
    by (simp add: stringifyStylesheet_def replace_def placeholder_def lit_def dollar_def
        ampersand_def Let_def)
  have r2: "render (Suc (Suc 0)) [node_with_style (lit '':hover$& { color: red }'')] empty_state =
     Inr (lit ''.hw_LW7Oq:hover'' @ placeholder @ lit '' { color: red }'', empty_state)"
    unfolding render_def run_hooks.simps hook_def node_with_style_def empty_state_def
    by (simp add: parse_hover_dollar hover_dollar_rules addRules_def s2 Let_def del: parse.simps)
  have "sublist placeholder (lit ''.hw_dxv0x { color: '' @ placeholder @ lit '' }'')"
    "sublist placeholder (lit ''.hw_LW7Oq:hover'' @ placeholder @ lit '' { color: red }'')"
    by (rule sublist_appendI)+
  with r1 r2 show ?thesis by blast
qed

theorem placeholder_never_serialized_witness:
  "\<exists>css st'. render (Suc (Suc (Suc 0)))
       [node_with_style (lit ''--price: $&5; :hover { color: blue }''),
        node_with_style (lit ''--price: $&5; :hover { color: blue }'')] empty_state = Inr (css, st') \<and>
     \<not> sublist placeholder css"
proof -
  let ?s = "lit ''--price: $&5; :hover { color: blue }''"
  let ?v = "node_with_style ?s"
  have "\<exists>css st'. render (Suc (Suc (Suc 0))) [?v, ?v] empty_state = Inr (css, st')"
    unfolding render_def run_hooks.simps hook_def node_with_style_def empty_state_def
    by (simp add: parse_price Let_def del: parse.simps)
  then obtain css st' where r: "render (Suc (Suc (Suc 0))) [?v, ?v] empty_state = Inr (css, st')"
    by blast
  have free: "\<not> sublist placeholder ?s"
  proof -
    have "length ?s < 48" by (simp add: lit_def)
    then have "ph_free ?s" by (rule ph_free_short)
    then show ?thesis by (simp add: ph_free_def)
  qed
  have fragments: "\<forall>con parsed con'. parse (Suc (Suc (Suc 0))) ?s [] con = Inr (parsed, con') \<longrightarrow>
                     (\<forall>f\<in>set (pseudo_fragments parsed). \<not> has_pattern f)"
    unfolding parse_price
    by (auto simp: pseudo_fragments_def isPseudoClassRule_def startsWith_def lit_def dollar_def)
  have c: "\<forall>v\<in>set [?v, ?v]. \<forall>s. style_prop v = Str s \<longrightarrow>
             \<not> sublist placeholder s \<and>
             (\<forall>con parsed con'. parse (Suc (Suc (Suc 0))) s [] con = Inr (parsed, con') \<longrightarrow>
                (\<forall>f\<in>set (pseudo_fragments parsed). \<not> has_pattern f))"
    using free fragments by (simp add: node_with_style_def del: parse.simps)
  have "stylesheet empty_state = []" by (simp add: empty_state_def)
  from placeholder_never_serialized [OF this c r] r show ?thesis by blast
qed

end
